theory Spec2Isabelle
  imports Main
begin

section \<open>Strings and the colour presets\<close>

text \<open>
  Markup, term names, contents and colour tokens are JavaScript strings. They are modelled
  as \<^typ>\<open>string\<close>, one \<^typ>\<open>char\<close> per code unit. The backslash cannot be written
  inside a string literal, so it gets a name.
\<close>

definition bs :: char where
  "bs = CHR 0x5C"

text \<open>The annotation syntax \<^verbatim>\<open>\clr{name}{content}\<close>, as the template literals build it.\<close>

definition annotation :: "string \<Rightarrow> string \<Rightarrow> string" where
  "annotation n g = bs # ''clr{'' @ n @ ''}{'' @ g @ ''}''"

text \<open>\<^verbatim>\<open>COLOR_PRESETS\<close>: the eight presets as (name, value) pairs, in source order.\<close>

definition COLOR_PRESETS :: "(string \<times> string) list" where
  "COLOR_PRESETS =
     [(''Red'', ''#ef4444''), (''Blue'', ''#3b82f6''), (''Green'', ''#22c55e''),
      (''Orange'', ''#f97316''), (''Purple'', ''#a855f7''), (''Cyan'', ''#06b6d4''),
      (''Pink'', ''#ec4899''), (''Yellow'', ''#eab308'')]"

text \<open>\<^verbatim>\<open>COLOR_PRESETS[i % COLOR_PRESETS.length].value\<close>\<close>

definition presetValue :: "nat \<Rightarrow> string" where
  "presetValue i = snd (COLOR_PRESETS ! (i mod length COLOR_PRESETS))"

text \<open>The literal \<^verbatim>\<open>'#888888'\<close> of the render preview.\<close>

definition FALLBACK_COLOR :: string where
  "FALLBACK_COLOR = ''#888888''"

text \<open>
  The colour map is a \<^verbatim>\<open>Record<string, string>\<close>, at run time a plain object such as
  \<^verbatim>\<open>{}\<close> or a spread copy. Reading \<^verbatim>\<open>colors[termName]\<close> finds an own entry first and
  then the members that every plain object inherits from \<^verbatim>\<open>Object.prototype\<close>. So the
  value read is a string (an own entry) or an inherited member, which is a built-in
  function, or for \<^verbatim>\<open>__proto__\<close> the prototype object. A term's colour is whatever was
  read, and \<^verbatim>\<open>handleUpdateTerm\<close> writes a term's colour back into the map, so both hold
  values of \<open>jsvalue\<close>.
\<close>

datatype jsvalue = Str string | Inherited string

definition objectPrototypeKeys :: "string list" where
  "objectPrototypeKeys =
     [''constructor'', ''__defineGetter__'', ''__defineSetter__'', ''hasOwnProperty'',
      ''__lookupGetter__'', ''__lookupSetter__'', ''isPrototypeOf'',
      ''propertyIsEnumerable'', ''toString'', ''valueOf'', ''__proto__'',
      ''toLocaleString'']"

type_synonym colorMap = "string \<rightharpoonup> jsvalue"

text \<open>\<^verbatim>\<open>colors[termName]\<close>; \<open>None\<close> is \<^verbatim>\<open>undefined\<close>.\<close>

definition getProperty :: "colorMap \<Rightarrow> string \<Rightarrow> jsvalue option" where
  "getProperty colors k =
     (case colors k of
        Some v \<Rightarrow> Some v
      | None \<Rightarrow> if k \<in> set objectPrototypeKeys then Some (Inherited k) else None)"

text \<open>Of these values only the empty string is falsy.\<close>

fun truthy :: "jsvalue \<Rightarrow> bool" where
  "truthy (Str v) = (v \<noteq> [])"
| "truthy (Inherited k) = True"

text \<open>\<^verbatim>\<open>colors[termName] || d\<close>, for a string \<open>d\<close>.\<close>

definition orDefault :: "colorMap \<Rightarrow> string \<Rightarrow> string \<Rightarrow> jsvalue" where
  "orDefault colors termName d =
     (case getProperty colors termName of
        None \<Rightarrow> Str d
      | Some v \<Rightarrow> if truthy v then v else Str d)"

text \<open>
  The text that a template literal prints for a value. A built-in function prints as
  \<^verbatim>\<open>function name() { [native code] }\<close> (the white space inside the braces is the
  engine's choice; this is the common one), the inherited \<^verbatim>\<open>constructor\<close> is the function
  \<^verbatim>\<open>Object\<close>, and the prototype object prints as \<^verbatim>\<open>[object Object]\<close>.
\<close>

fun toText :: "jsvalue \<Rightarrow> string" where
  "toText (Str v) = v"
| "toText (Inherited k) =
     (if k = ''__proto__'' then ''[object Object]''
      else ''function '' @ (if k = ''constructor'' then ''Object'' else k)
           @ ''() { [native code] }'')"

record colored_term =
  name :: string
  content :: string
  color :: jsvalue

section \<open>The annotation patterns\<close>

text \<open>
  Three regular expressions occur in the source:
  \<^item> \<^verbatim>\<open>/\\clr\{([^}]+)\}\{([^}]+)\}/g\<close> in \<^verbatim>\<open>parseTermsFromLatex\<close> and in the render
    preview;
  \<^item> \<^verbatim>\<open>new RegExp(`\\\\clr\\{${termName}\\}\\{[^}]+\\}`, 'g')\<close> in \<^verbatim>\<open>handleUpdateTerm\<close>;
  \<^item> \<^verbatim>\<open>new RegExp(`\\\\clr\\{${termName}\\}\\{([^}]+)\\}`, 'g')\<close> in \<^verbatim>\<open>handleRemoveTerm\<close>.

  All three have the shape \<^verbatim>\<open>\clr{\<close> NAME \<^verbatim>\<open>}{\<close> \<^verbatim>\<open>[^}]+\<close> \<^verbatim>\<open>}\<close>. In the first, NAME is the class
  \<^verbatim>\<open>[^}]+\<close>; in the other two it is the text of \<^verbatim>\<open>termName\<close>, pasted into the pattern
  source without escaping, so that the regular expression syntax of the name is live.

  A greedy \<^verbatim>\<open>[^}]+\<close> is always followed by the literal \<^verbatim>\<open>}\<close> here. Giving back characters
  of the run would leave a character other than \<^verbatim>\<open>}\<close> in front of that literal, so the
  only run that can succeed is the longest one: the matcher takes it and does not
  backtrack.
\<close>

fun stripPrefix :: "string \<Rightarrow> string \<Rightarrow> string option" where
  "stripPrefix [] s = Some s"
| "stripPrefix (p # ps) [] = None"
| "stripPrefix (p # ps) (x # xs) = (if x = p then stripPrefix ps xs else None)"

definition notClose :: "char \<Rightarrow> bool" where
  "notClose c = (c \<noteq> CHR ''}'')"

text \<open>\<^verbatim>\<open>[^}]+\<close>: the longest run of characters other than \<^verbatim>\<open>}\<close>, which must not be empty.\<close>

definition classPlus :: "string \<Rightarrow> (string \<times> string) option" where
  "classPlus s =
     (let g = takeWhile notClose s
      in if g = [] then None else Some (g, dropWhile notClose s))"

text \<open>
  What stands behind the NAME part in all three patterns: \<^verbatim>\<open>\}\{[^}]+\}\<close>, giving the
  content run and the input behind the match.
\<close>

definition matchTail :: "string \<Rightarrow> (string \<times> string) option" where
  "matchTail r2 =
     (case stripPrefix ''}{'' r2 of
        None \<Rightarrow> None
      | Some r3 \<Rightarrow>
     (case classPlus r3 of
        None \<Rightarrow> None
      | Some (g, r4) \<Rightarrow>
     (case stripPrefix ''}'' r4 of
        None \<Rightarrow> None
      | Some r5 \<Rightarrow> Some (g, r5))))"

text \<open>
  The pattern that a pasted \<^verbatim>\<open>termName\<close> denotes. The modelled fragment of the pattern
  syntax is: a character that is not a syntax character stands for itself; \<^verbatim>\<open>.\<close> matches
  any one character except a line terminator; each of the two may be followed by one of
  the greedy quantifiers \<^verbatim>\<open>?\<close>, \<^verbatim>\<open>*\<close>, \<^verbatim>\<open>+\<close>. \<open>compileName\<close> answers \<open>None\<close> for every
  other name: one that uses another syntax character (\<^verbatim>\<open>^ $ \ ( ) [ ] { } |\<close>), a lazy
  quantifier, or a quantifier with nothing of the name in front of it. For such a name
  \<^verbatim>\<open>new RegExp\<close> builds a pattern that is not modelled here, or throws a SyntaxError;
  \<open>None\<close> says nothing about which.
\<close>

datatype atom = Lit char | AnyChar

datatype quant = One | Opt | Star | Plus

definition syntaxChars :: "char list" where
  "syntaxChars = bs # ''^$.*+?()[]{}|''"

definition isLineTerminator :: "char \<Rightarrow> bool" where
  "isLineTerminator c = (c = CHR 0x0A \<or> c = CHR 0x0D)"

definition toAtom :: "char \<Rightarrow> atom option" where
  "toAtom c =
     (if c = CHR ''.'' then Some AnyChar
      else if c \<in> set syntaxChars then None
      else Some (Lit c))"

definition toQuant :: "char \<Rightarrow> quant option" where
  "toQuant c =
     (if c = CHR ''?'' then Some Opt
      else if c = CHR ''*'' then Some Star
      else if c = CHR ''+'' then Some Plus
      else None)"

fun compileName :: "string \<Rightarrow> (atom \<times> quant) list option" where
  "compileName [] = Some []"
| "compileName [c] = map_option (\<lambda>a. [(a, One)]) (toAtom c)"
| "compileName (c # q # rest) =
     (case toAtom c of
        None \<Rightarrow> None
      | Some a \<Rightarrow>
          (case toQuant q of
             None \<Rightarrow> map_option (Cons (a, One)) (compileName (q # rest))
           | Some k \<Rightarrow>
               (case rest of
                  [] \<Rightarrow> Some [(a, k)]
                | r # rest' \<Rightarrow>
                    if r = CHR ''?'' then None
                    else map_option (Cons (a, k)) (compileName (r # rest')))))"

definition atomOk :: "atom \<Rightarrow> char \<Rightarrow> bool" where
  "atomOk a c = (case a of Lit x \<Rightarrow> c = x | AnyChar \<Rightarrow> \<not> isLineTerminator c)"

text \<open>
  The ways to match the items of a name at the start of the input, as the inputs left
  behind them, in the order in which backtracking tries them: a greedy quantifier takes
  as many characters as it can first and gives them back one by one.
\<close>

fun matchItems :: "(atom \<times> quant) list \<Rightarrow> string \<Rightarrow> string list" where
  "matchItems [] s = [s]"
| "matchItems ((a, One) # its) [] = []"
| "matchItems ((a, One) # its) (c # cs) = (if atomOk a c then matchItems its cs else [])"
| "matchItems ((a, Opt) # its) [] = matchItems its []"
| "matchItems ((a, Opt) # its) (c # cs) =
     (if atomOk a c then matchItems its cs else []) @ matchItems its (c # cs)"
| "matchItems ((a, Star) # its) [] = matchItems its []"
| "matchItems ((a, Star) # its) (c # cs) =
     (if atomOk a c then matchItems ((a, Star) # its) cs else []) @ matchItems its (c # cs)"
| "matchItems ((a, Plus) # its) [] = []"
| "matchItems ((a, Plus) # its) (c # cs) =
     (if atomOk a c then matchItems ((a, Star) # its) cs else [])"

datatype namePat = AnyName | Exactly "(atom \<times> quant) list"

text \<open>
  The NAME part: the text it matched and the rest of the input. For the class
  \<^verbatim>\<open>[^}]+\<close> that is its longest run. For the items of a pasted name it is the first way
  to match them, in the order of backtracking, behind which the rest of the pattern
  matches.
\<close>

fun matchName :: "namePat \<Rightarrow> string \<Rightarrow> (string \<times> string) option" where
  "matchName AnyName s = classPlus s"
| "matchName (Exactly its) s =
     (case find (\<lambda>r. matchTail r \<noteq> None) (matchItems its s) of
        None \<Rightarrow> None
      | Some r \<Rightarrow> Some (take (length s - length r) s, r))"

text \<open>
  One attempt to match the whole pattern at the start of the input: the name text, the
  content run and the input behind the match.
\<close>

definition matchAnn :: "namePat \<Rightarrow> string \<Rightarrow> (string \<times> string \<times> string) option" where
  "matchAnn p s =
     (case stripPrefix (bs # ''clr{'') s of
        None \<Rightarrow> None
      | Some r1 \<Rightarrow>
     (case matchName p r1 of
        None \<Rightarrow> None
      | Some (n, r2) \<Rightarrow>
     (case matchTail r2 of
        None \<Rightarrow> None
      | Some (g, r5) \<Rightarrow> Some (n, g, r5))))"

text \<open>A match consumes at least the eight delimiter characters of the pattern.\<close>

lemma stripPrefix_Some:
  "stripPrefix p s = Some r \<Longrightarrow> s = p @ r"
  by (induction p s rule: stripPrefix.induct) (auto split: if_splits)

lemma stripPrefix_append:
  "stripPrefix p (p @ r) = Some r"
  by (induction p) auto

lemma classPlus_Some:
  assumes "classPlus s = Some (g, r)"
  shows "s = g @ r" and "g \<noteq> []" and "CHR ''}'' \<notin> set g" and "r = [] \<or> hd r = CHR ''}''"
proof -
  from assms have g: "g = takeWhile notClose s" and r: "r = dropWhile notClose s"
    and ne: "g \<noteq> []"
    by (auto simp: classPlus_def Let_def split: if_splits)
  show "s = g @ r" by (simp add: g r)
  show "g \<noteq> []" by (rule ne)
  show "CHR ''}'' \<notin> set g"
    using set_takeWhileD [of "CHR ''}''" notClose s] by (auto simp: g notClose_def)
  show "r = [] \<or> hd r = CHR ''}''"
    using hd_dropWhile [of notClose s] by (auto simp: r notClose_def)
qed

lemma matchTail_Some:
  assumes "matchTail r2 = Some (g, r)"
  shows "r2 = ''}{'' @ g @ ''}'' @ r" and "g \<noteq> []" and "CHR ''}'' \<notin> set g"
proof -
  from assms obtain r3 r4 where
    3: "stripPrefix ''}{'' r2 = Some r3" and
    4: "classPlus r3 = Some (g, r4)" and
    5: "stripPrefix ''}'' r4 = Some r"
    unfolding matchTail_def by (auto split: option.splits)
  from stripPrefix_Some [OF 3] classPlus_Some(1) [OF 4] stripPrefix_Some [OF 5]
  show "r2 = ''}{'' @ g @ ''}'' @ r" by simp
  from classPlus_Some(2,3) [OF 4] show "g \<noteq> []" and "CHR ''}'' \<notin> set g" by simp_all
qed

lemma matchItems_suffix:
  "r \<in> set (matchItems its s) \<Longrightarrow> \<exists>m. s = m @ r"
proof (induction its s rule: matchItems.induct)
  case (1 s)
  then show ?case by simp
next
  case (3 a its c cs)
  then show ?case by (auto split: if_splits intro: exI [of _ "c # _"])
next
  case (5 a its c cs)
  then show ?case by (auto split: if_splits intro: exI [of _ "c # _"])
next
  case (7 a its c cs)
  then show ?case by (auto split: if_splits intro: exI [of _ "c # _"])
next
  case (9 a its c cs)
  then show ?case by (auto split: if_splits intro: exI [of _ "c # _"])
qed auto

lemma matchName_Some:
  assumes "matchName p s = Some (n, r)"
  shows "s = n @ r"
proof (cases p)
  case AnyName
  with assms show ?thesis
    by (auto dest: classPlus_Some(1))
next
  case (Exactly its)
  with assms have f: "find (\<lambda>r. matchTail r \<noteq> None) (matchItems its s) = Some r"
    and n: "n = take (length s - length r) s"
    by (auto split: option.splits)
  from f have "r \<in> set (matchItems its s)"
    by (auto simp: find_Some_iff)
  from matchItems_suffix [OF this] n show ?thesis by auto
qed

lemma matchAnn_Some:
  assumes "matchAnn p s = Some (n, g, r)"
  shows "s = annotation n g @ r" and "g \<noteq> []"
    and "CHR ''}'' \<notin> set g"
proof -
  from assms obtain r1 r2 where
    1: "stripPrefix (bs # ''clr{'') s = Some r1" and
    2: "matchName p r1 = Some (n, r2)" and
    3: "matchTail r2 = Some (g, r)"
    unfolding matchAnn_def by (auto split: option.splits)
  from stripPrefix_Some [OF 1] matchName_Some [OF 2] matchTail_Some(1) [OF 3]
  show "s = annotation n g @ r" by (simp add: annotation_def)
  from matchTail_Some(2,3) [OF 3] show "g \<noteq> []" and "CHR ''}'' \<notin> set g" by simp_all
qed

lemma matchAnn_shorter:
  "matchAnn p s = Some (n, g, r) \<Longrightarrow> length r < length s"
  by (drule matchAnn_Some(1)) (simp add: annotation_def)

section \<open>Scanning the markup\<close>

text \<open>
  \<^verbatim>\<open>parseTermsFromLatex\<close>: the \<^verbatim>\<open>while ((match = pattern.exec(latexStr)) !== null)\<close> loop
  of a global pattern. \<^verbatim>\<open>exec\<close> looks for the leftmost match at or behind \<^verbatim>\<open>lastIndex\<close>
  and moves \<^verbatim>\<open>lastIndex\<close> behind it; the list \<open>found\<close> is \<^verbatim>\<open>foundTerms\<close>, and
  \<^verbatim>\<open>foundTerms.length\<close> indexes the presets.
\<close>

function parseLoop :: "colorMap \<Rightarrow> colored_term list \<Rightarrow> string \<Rightarrow> colored_term list" where
  "parseLoop colors found [] = found"
| "parseLoop colors found (c # cs) =
     (case matchAnn AnyName (c # cs) of
        None \<Rightarrow> parseLoop colors found cs
      | Some (termName, cont, rest) \<Rightarrow>
          parseLoop colors
            (found @ [\<lparr>name = termName, content = cont,
                       color = orDefault colors termName (presetValue (length found))\<rparr>])
            rest)"
  by pat_completeness auto
termination
  by (relation "measure (\<lambda>(colors, found, s). length s)")
    (auto dest: matchAnn_shorter)

definition parseTermsFromLatex :: "string \<Rightarrow> colorMap \<Rightarrow> colored_term list" where
  "parseTermsFromLatex latexStr colors = parseLoop colors [] latexStr"

text \<open>
  \<^verbatim>\<open>String.prototype.replace\<close> with a global pattern: every leftmost, non-overlapping
  match is replaced, the text between matches is kept. The replacer \<open>f\<close> receives what
  JavaScript makes available to a replacement: the text in front of the match (\<open>pre\<close>),
  the matched text, the name text, the content run and the text behind the match
  (\<open>post\<close>).
\<close>

function replaceFrom ::
  "namePat \<Rightarrow> (string \<Rightarrow> string \<Rightarrow> string \<Rightarrow> string \<Rightarrow> string \<Rightarrow> string)
     \<Rightarrow> string \<Rightarrow> string \<Rightarrow> string" where
  "replaceFrom p f pre [] = []"
| "replaceFrom p f pre (c # cs) =
     (case matchAnn p (c # cs) of
        None \<Rightarrow> c # replaceFrom p f (pre @ [c]) cs
      | Some (n, g, rest) \<Rightarrow>
          f pre (annotation n g) n g rest
          @ replaceFrom p f (pre @ annotation n g) rest)"
  by pat_completeness auto
termination
  by (relation "measure (\<lambda>(p, f, pre, s). length s)")
    (auto dest: matchAnn_shorter)

definition replaceAll ::
  "namePat \<Rightarrow> (string \<Rightarrow> string \<Rightarrow> string \<Rightarrow> string \<Rightarrow> string \<Rightarrow> string)
     \<Rightarrow> string \<Rightarrow> string" where
  "replaceAll p f s = replaceFrom p f [] s"


section \<open>The render preview\<close>

text \<open>
  The replacer of the preview effect:
  \<^verbatim>\<open>(_, termName, content) => `\\textcolor{${colorMap[termName] || '#888888'}}{${content}}`\<close>.
  A function replacer returns text that is used as it is.
\<close>

definition textcolor :: "colorMap \<Rightarrow> string \<Rightarrow> string \<Rightarrow> string" where
  "textcolor colors termName cont =
     bs # ''textcolor{'' @ toText (orDefault colors termName FALLBACK_COLOR)
       @ ''}{'' @ cont @ ''}''"

definition processedLatex :: "string \<Rightarrow> colorMap \<Rightarrow> string" where
  "processedLatex latexStr colors =
     replaceAll AnyName (\<lambda>pre matched termName cont post. textcolor colors termName cont)
       latexStr"

section \<open>Replacement strings\<close>

text \<open>
  \<^verbatim>\<open>handleUpdateTerm\<close> and \<^verbatim>\<open>handleRemoveTerm\<close> pass a string as replacement, and
  \<^verbatim>\<open>replace\<close> expands the dollar patterns of a replacement string at every match
  (GetSubstitution): \<^verbatim>\<open>$$\<close> is a dollar sign, \<^verbatim>\<open>$&\<close> the matched text, \<^verbatim>\<open>$`\<close> the text
  in front of the match, \<^verbatim>\<open>$'\<close> the text behind it, \<^verbatim>\<open>$n\<close> and \<^verbatim>\<open>$nn\<close> the capture of that
  number when the pattern has one. Everything else, a dollar sign in front of anything
  else included, is copied.
\<close>

definition isDigit :: "char \<Rightarrow> bool" where
  "isDigit c = (c \<in> set ''0123456789'')"

definition digitVal :: "char \<Rightarrow> nat" where
  "digitVal c = of_char c - 48"

definition capture :: "string list \<Rightarrow> nat \<Rightarrow> string option" where
  "capture caps i = (if 1 \<le> i \<and> i \<le> length caps then Some (caps ! (i - 1)) else None)"

fun getSubstitution :: "string \<Rightarrow> string \<Rightarrow> string list \<Rightarrow> string \<Rightarrow> string \<Rightarrow> string" where
  "getSubstitution matched pre caps post [] = []"
| "getSubstitution matched pre caps post [c] = [c]"
| "getSubstitution matched pre caps post (c # d # rest) =
     (if c \<noteq> CHR ''$'' then c # getSubstitution matched pre caps post (d # rest)
      else if d = CHR ''$'' then CHR ''$'' # getSubstitution matched pre caps post rest
      else if d = CHR ''&'' then matched @ getSubstitution matched pre caps post rest
      else if d = CHR 0x60 then pre @ getSubstitution matched pre caps post rest
      else if d = CHR 0x27 then post @ getSubstitution matched pre caps post rest
      else if isDigit d then
        (let one =
           (case capture caps (digitVal d) of
              Some t \<Rightarrow> t @ getSubstitution matched pre caps post rest
            | None \<Rightarrow> CHR ''$'' # getSubstitution matched pre caps post (d # rest))
         in case rest of
              [] \<Rightarrow> one
            | e # rest' \<Rightarrow>
                if isDigit e then
                  (case capture caps (10 * digitVal d + digitVal e) of
                     Some t \<Rightarrow> t @ getSubstitution matched pre caps post rest'
                   | None \<Rightarrow> one)
                else one)
      else CHR ''$'' # getSubstitution matched pre caps post (d # rest))"

section \<open>The structured edits\<close>

text \<open>
  The \<^verbatim>\<open>setLatex\<close> updater of \<^verbatim>\<open>handleUpdateTerm\<close>. Its pattern has no capture group; the
  replacement string is \<^verbatim>\<open>`\\clr{${termName}}{${newContent}}`\<close>. The result is \<open>None\<close>
  when the pattern that \<^verbatim>\<open>termName\<close> denotes is outside the modelled fragment.
\<close>

definition updateLatex :: "string \<Rightarrow> string \<Rightarrow> string \<Rightarrow> string option" where
  "updateLatex prev termName newContent =
     (case compileName termName of
        None \<Rightarrow> None
      | Some as \<Rightarrow>
          Some (replaceAll (Exactly as)
            (\<lambda>pre matched n g post.
               getSubstitution matched pre [] post
                 (annotation termName newContent))
            prev))"

text \<open>
  The \<^verbatim>\<open>setLatex\<close> updater of \<^verbatim>\<open>handleRemoveTerm\<close>: the content run is capture 1 and the
  replacement string is \<^verbatim>\<open>'$1'\<close>.
\<close>

definition removeLatex :: "string \<Rightarrow> string \<Rightarrow> string option" where
  "removeLatex prev termName =
     (case compileName termName of
        None \<Rightarrow> None
      | Some as \<Rightarrow>
          Some (replaceAll (Exactly as)
            (\<lambda>pre matched n g post. getSubstitution matched pre [g] post ''$1'')
            prev))"

text \<open>The state of the modal: \<^verbatim>\<open>latex\<close>, \<^verbatim>\<open>colorMap\<close> and \<^verbatim>\<open>terms\<close>.\<close>

record session =
  latex :: string
  colorMap :: colorMap
  terms :: "colored_term list"

definition handleUpdateTerm ::
  "session \<Rightarrow> string \<Rightarrow> string \<Rightarrow> jsvalue \<Rightarrow> session option" where
  "handleUpdateTerm st termName newContent newColor =
     (case updateLatex (latex st) termName newContent of
        None \<Rightarrow> None
      | Some l \<Rightarrow>
          Some \<lparr>latex = l,
                colorMap = (colorMap st)(termName \<mapsto> newColor),
                terms = map (\<lambda>t. if name t = termName
                                   then t\<lparr>content := newContent, color := newColor\<rparr>
                                   else t) (terms st)\<rparr>)"

definition handleRemoveTerm :: "session \<Rightarrow> string \<Rightarrow> session option" where
  "handleRemoveTerm st termName =
     (case removeLatex (latex st) termName of
        None \<Rightarrow> None
      | Some l \<Rightarrow>
          Some \<lparr>latex = l,
                colorMap = (colorMap st)(termName := None),
                terms = filter (\<lambda>t. name t \<noteq> termName) (terms st)\<rparr>)"

text \<open>
  \<^verbatim>\<open>String.prototype.substring\<close> clamps both indices to the length of the string and swaps
  them when the first is the larger one; with one argument it runs to the end.
\<close>

definition substring :: "string \<Rightarrow> nat \<Rightarrow> nat \<Rightarrow> string" where
  "substring s a b =
     (let a' = min a (length s); b' = min b (length s);
          lo = min a' b'; hi = max a' b'
      in take (hi - lo) (drop lo s))"

definition substringFrom :: "string \<Rightarrow> nat \<Rightarrow> string" where
  "substringFrom s a = drop (min a (length s)) s"

text \<open>The decimal digits of a number, as the template literal prints it.\<close>

definition digitChar :: "nat \<Rightarrow> char" where
  "digitChar k = ''0123456789'' ! k"

fun showNat :: "nat \<Rightarrow> string" where
  "showNat n =
     (if n < 10 then [digitChar n]
      else showNat (n div 10) @ [digitChar (n mod 10)])"

declare showNat.simps [simp del]

text \<open>
  \<^verbatim>\<open>handleAddTerm\<close>. The argument \<open>textarea\<close> is \<^verbatim>\<open>textareaRef.current\<close>: \<open>None\<close> when the
  text area is not mounted, otherwise its \<^verbatim>\<open>selectionStart\<close> and \<^verbatim>\<open>selectionEnd\<close>.
  An empty selection is falsy, so \<^verbatim>\<open>|| 'text'\<close> supplies the default text.
\<close>

definition handleAddTerm :: "session \<Rightarrow> (nat \<times> nat) option \<Rightarrow> session" where
  "handleAddTerm st textarea =
     (let newTermName = ''term'' @ showNat (length (terms st) + 1);
          newColor = Str (presetValue (length (terms st)))
      in case textarea of
           None \<Rightarrow> st
         | Some (start, end) \<Rightarrow>
             (let sel = substring (latex st) start end;
                  selectedText = (if sel = [] then ''text'' else sel);
                  newLatex = substring (latex st) 0 start
                             @ annotation newTermName selectedText
                             @ substringFrom (latex st) end
              in \<lparr>latex = newLatex,
                    colorMap = (colorMap st)(newTermName \<mapsto> newColor),
                    terms = terms st @ [\<lparr>name = newTermName, content = selectedText,
                                         color = newColor\<rparr>]\<rparr>))"


text \<open>
  The two tabs of the modal, \<^verbatim>\<open>activeTab\<close>. The text area is rendered on the tab
  \<^verbatim>\<open>'latex'\<close> only, so \<^verbatim>\<open>textareaRef.current\<close> is \<^verbatim>\<open>null\<close> on the other tab. The button
  \<^verbatim>\<open>+ Add Colored Term\<close>, the only caller of \<^verbatim>\<open>handleAddTerm\<close>, is rendered on the tab
  \<^verbatim>\<open>'terms'\<close> only: \<open>addTermButton\<close> is a click on it, \<open>None\<close> where there is no button
  to click. The selection is the last one the text area had.
\<close>

datatype tab = LatexTab | TermsTab

definition textareaRef :: "tab \<Rightarrow> nat \<times> nat \<Rightarrow> (nat \<times> nat) option" where
  "textareaRef activeTab selection =
     (case activeTab of LatexTab \<Rightarrow> Some selection | TermsTab \<Rightarrow> None)"

definition addTermButton :: "tab \<Rightarrow> session \<Rightarrow> nat \<times> nat \<Rightarrow> session option" where
  "addTermButton activeTab st selection =
     (case activeTab of
        LatexTab \<Rightarrow> None
      | TermsTab \<Rightarrow> Some (handleAddTerm st (textareaRef activeTab selection)))"

section \<open>The span view of a scan\<close>

text \<open>
  To state what the scans do, a scan is also described by the list of spans it cuts the
  markup into: every match of the pattern is an annotation span with its name text and
  its content, and every character that no match covers is a text span. \<open>spans\<close>
  walks the markup exactly as \<open>parseLoop\<close> and \<open>replaceFrom\<close> do. \<open>rebuild h\<close> writes
  the spans back, an annotation span \<open>Ann n g\<close> as \<open>h n g\<close>; with \<open>annotation\<close> for
  \<open>h\<close> it gives the markup again (\<open>rebuild_spans\<close>).
\<close>

datatype span = Text char | Ann string string

function spans :: "namePat \<Rightarrow> string \<Rightarrow> span list" where
  "spans p [] = []"
| "spans p (c # cs) =
     (case matchAnn p (c # cs) of
        None \<Rightarrow> Text c # spans p cs
      | Some (n, g, rest) \<Rightarrow> Ann n g # spans p rest)"
  by pat_completeness auto
termination
  by (relation "measure (\<lambda>(p, s). length s)") (auto dest: matchAnn_shorter)


fun expand :: "(string \<Rightarrow> string \<Rightarrow> string) \<Rightarrow> span \<Rightarrow> string" where
  "expand h (Text c) = [c]"
| "expand h (Ann n g) = h n g"

definition rebuild :: "(string \<Rightarrow> string \<Rightarrow> string) \<Rightarrow> span list \<Rightarrow> string" where
  "rebuild h sps = concat (map (expand h) sps)"

fun annsOf :: "span list \<Rightarrow> (string \<times> string) list" where
  "annsOf [] = []"
| "annsOf (Text c # sps) = annsOf sps"
| "annsOf (Ann n g # sps) = (n, g) # annsOf sps"


text \<open>The scenario markup \<^verbatim>\<open>x + \clr{a}{y} = \clr{b}{z}\<close>.\<close>

definition scenarioMarkup :: string where
  "scenarioMarkup = ''x + '' @ annotation ''a'' ''y'' @ '' = '' @ annotation ''b'' ''z''"

text \<open>
  The colour that the specification's sentence on extraction describes: the entry of the
  colour map when the name is present, otherwise the preset whose index is the ordinal
  of the term among the terms found so far that are not in the colour map.
\<close>

definition unknownOrdinal :: "colorMap \<Rightarrow> colored_term list \<Rightarrow> nat \<Rightarrow> nat" where
  "unknownOrdinal colors ts i = length (filter (\<lambda>t. colors (name t) = None) (take i ts))"

definition specColor :: "colorMap \<Rightarrow> colored_term list \<Rightarrow> nat \<Rightarrow> jsvalue" where
  "specColor colors ts i =
     (case colors (name (ts ! i)) of
        Some v \<Rightarrow> v
      | None \<Rightarrow> Str (presetValue (unknownOrdinal colors ts i)))"

text \<open>
  The colour directive that the specification's sentence on transcoding describes: the
  entry of the colour map when the name is present, otherwise the fallback.
\<close>

definition specTextcolor :: "colorMap \<Rightarrow> string \<Rightarrow> string \<Rightarrow> string" where
  "specTextcolor colors termName cont =
     bs # ''textcolor{''
       @ toText (case colors termName of Some v \<Rightarrow> v | None \<Rightarrow> Str FALLBACK_COLOR)
       @ ''}{'' @ cont @ ''}''"

text \<open>
  A name is plain when none of its characters is a syntax character of regular
  expressions. The pattern that a plain name denotes matches the text of the name and
  nothing else: \<open>pat n\<close>.
\<close>

definition plainName :: "string \<Rightarrow> bool" where
  "plainName n = list_all (\<lambda>c. c \<notin> set syntaxChars) n"

definition pat :: "string \<Rightarrow> namePat" where
  "pat n = Exactly (map (\<lambda>c. (Lit c, One)) n)"


text \<open>
  Tidy markup. The scans match text, so a wrapper stripped or a content replaced can join
  the text around it into an annotation that was not there before. Markup in which this
  cannot happen is described on the spans of the extraction scan:
  \<^item> \<open>blocks ps s\<close>: the text \<open>s\<close> differs from \<open>ps\<close> at a position that both have, so
    that no continuation of \<open>s\<close> starts with \<open>ps\<close>;
  \<^item> \<open>calm s\<close>: every backslash of \<open>s\<close> is followed, inside \<open>s\<close>, by text that rules
    out \<^verbatim>\<open>clr{\<close>, as in \<^verbatim>\<open>\frac\<close> or \<^verbatim>\<open>\cdot\<close>;
  \<^item> \<open>guarded ps T\<close>: the same for a list of spans, where the deciding character must be
    reached through text spans;
  \<^item> \<open>okList T\<close>: every backslash in a text span is guarded by the text spans after it,
    and every annotation span has a name without backslash and a calm content (both
    non-empty and without \<^verbatim>\<open>}\<close>, as the pattern demands);
  \<^item> \<open>tidy s\<close>: the spans of the extraction scan of \<open>s\<close> are such a list. In words:
    every backslash of \<open>s\<close> either opens an annotation that extraction finds, or
    belongs to some other command and is followed by plain text that rules out
    \<^verbatim>\<open>clr{\<close>.
\<close>

fun blocks :: "string \<Rightarrow> string \<Rightarrow> bool" where
  "blocks (p # ps) (c # cs) = (c \<noteq> p \<or> blocks ps cs)"
| "blocks ps cs = False"

fun calm :: "string \<Rightarrow> bool" where
  "calm [] = True"
| "calm (c # cs) = ((c \<noteq> bs \<or> blocks ''clr{'' cs) \<and> calm cs)"

fun guarded :: "string \<Rightarrow> span list \<Rightarrow> bool" where
  "guarded (p # ps) (Text c # T) = (c \<noteq> p \<or> guarded ps T)"
| "guarded ps T = False"

fun okList :: "span list \<Rightarrow> bool" where
  "okList [] = True"
| "okList (Text c # T) = ((c \<noteq> bs \<or> guarded ''clr{'' T) \<and> okList T)"
| "okList (Ann n g # T) =
     (n \<noteq> [] \<and> g \<noteq> [] \<and> CHR ''}'' \<notin> set n \<and> CHR ''}'' \<notin> set g
      \<and> bs \<notin> set n \<and> calm g \<and> okList T)"

definition tidy :: "string \<Rightarrow> bool" where
  "tidy s = okList (spans AnyName s)"

text \<open>
  What the scan for a plain name \<open>x\<close> makes of the spans of the extraction scan
  (\<open>demote\<close>: annotations of other names are text to it), and the spans after the
  wrappers of \<open>x\<close> are stripped (\<open>unwrap\<close>) or the contents of \<open>x\<close> are replaced
  (\<open>retag\<close>).
\<close>

fun demote :: "string \<Rightarrow> span \<Rightarrow> span list" where
  "demote x (Text c) = [Text c]"
| "demote x (Ann n g) = (if n = x then [Ann n g] else map Text (annotation n g))"

fun unwrap :: "string \<Rightarrow> span \<Rightarrow> span list" where
  "unwrap x (Text c) = [Text c]"
| "unwrap x (Ann n g) = (if n = x then map Text g else [Ann n g])"

fun retag :: "string \<Rightarrow> string \<Rightarrow> span \<Rightarrow> span" where
  "retag x v (Text c) = Text c"
| "retag x v (Ann n g) = (if n = x then Ann n v else Ann n g)"


text \<open>The name and the content of a term, without its colour.\<close>

definition nameContent :: "colored_term \<Rightarrow> string \<times> string" where
  "nameContent t = (name t, content t)"

text \<open>
  The text in front of a content, \<^verbatim>\<open>\clr{name}{\<close>, and the markup that \<open>updateTerm\<close>
  with the empty content makes for a plain name: every occurrence that its scan finds
  becomes \<^verbatim>\<open>\clr{name}{}\<close>.
\<close>

definition opener :: "string \<Rightarrow> string" where
  "opener n = bs # ''clr{'' @ n @ ''}{''"

definition emptied :: "string \<Rightarrow> string \<Rightarrow> string" where
  "emptied N s = rebuild (\<lambda>m g. annotation N []) (spans (pat N) s)"

text \<open>A state of the modal whose markup \<^verbatim>\<open>\clr{a}{y}\<close> holds one term.\<close>

definition stateWithOneTerm :: session where
  "stateWithOneTerm =
     \<lparr>latex = annotation ''a'' ''y'', colorMap = Map.empty,
      terms = [\<lparr>name = ''a'', content = ''y'', color = Str (presetValue 0)\<rparr>]\<rparr>"

section \<open>Lemmas on the scans\<close>

lemma spans_Some:
  assumes "matchAnn p s = Some (n, g, rest)"
  shows "spans p s = Ann n g # spans p rest"
proof (cases s)
  case Nil
  with matchAnn_shorter [OF assms] show ?thesis by simp
next
  case (Cons c cs)
  with assms show ?thesis by simp
qed

lemma spans_None:
  "matchAnn p (c # cs) = None \<Longrightarrow> spans p (c # cs) = Text c # spans p cs"
  by simp

lemma rebuild_Nil [simp]: "rebuild h [] = []"
  by (simp add: rebuild_def)

lemma rebuild_Cons [simp]: "rebuild h (sp # sps) = expand h sp @ rebuild h sps"
  by (simp add: rebuild_def)

lemma rebuild_append [simp]: "rebuild h (xs @ ys) = rebuild h xs @ rebuild h ys"
  by (simp add: rebuild_def)

lemma rebuild_spans: "rebuild annotation (spans p s) = s"
proof (induction p s rule: spans.induct)
  case (1 p)
  show ?case by simp
next
  case (2 p c cs)
  show ?case
  proof (cases "matchAnn p (c # cs)")
    case None
    with 2 show ?thesis by simp
  next
    case (Some t)
    then obtain n g rest where t: "t = (n, g, rest)" by (cases t) auto
    from Some t have m: "matchAnn p (c # cs) = Some (n, g, rest)" by simp
    from 2(2) [OF Some t [symmetric] refl]
    have "rebuild annotation (spans p rest) = rest" .
    then show ?thesis
      unfolding spans_Some [OF m] using matchAnn_Some(1) [OF m] by simp
  qed
qed

lemma replaceFrom_spans:
  "replaceFrom p (\<lambda>pre matched n g post. h n g) pre s = rebuild h (spans p s)"
proof (induction p s arbitrary: pre rule: spans.induct)
  case (1 p)
  show ?case by simp
next
  case (2 p c cs)
  show ?case
  proof (cases "matchAnn p (c # cs)")
    case None
    with 2 show ?thesis by simp
  next
    case (Some t)
    then obtain n g rest where t: "t = (n, g, rest)" by (cases t) auto
    with Some 2 show ?thesis by simp
  qed
qed

lemma parseLoop_spans:
  "map (\<lambda>t. (name t, content t)) (parseLoop colors found s)
     = map (\<lambda>t. (name t, content t)) found @ annsOf (spans AnyName s)"
proof (induction colors found s rule: parseLoop.induct)
  case (1 colors found)
  show ?case by simp
next
  case (2 colors found c cs)
  show ?case
  proof (cases "matchAnn AnyName (c # cs)")
    case None
    with 2 show ?thesis by simp
  next
    case (Some t)
    then obtain n g rest where t: "t = (n, g, rest)" by (cases t) auto
    with Some 2 show ?thesis by simp
  qed
qed

lemma parseLoop_colors:
  "\<exists>new. parseLoop colors found s = found @ new \<and>
     (\<forall>j<length new. color (new ! j)
        = orDefault colors (name (new ! j)) (presetValue (length found + j)))"
proof (induction colors found s rule: parseLoop.induct)
  case (1 colors found)
  show ?case by simp
next
  case (2 colors found c cs)
  show ?case
  proof (cases "matchAnn AnyName (c # cs)")
    case None
    with 2 show ?thesis by simp
  next
    case (Some t)
    then obtain n g rest where t: "t = (n, g, rest)" by (cases t) auto
    let ?t = "\<lparr>name = n, content = g, color = orDefault colors n (presetValue (length found))\<rparr>"
    from 2(2) [OF Some t [symmetric] refl] obtain new where
      new: "parseLoop colors (found @ [?t]) rest = (found @ [?t]) @ new"
      and col: "\<forall>j<length new. color (new ! j)
        = orDefault colors (name (new ! j)) (presetValue (length (found @ [?t]) + j))"
      by blast
    have "\<forall>j<length (?t # new). color ((?t # new) ! j)
        = orDefault colors (name ((?t # new) ! j)) (presetValue (length found + j))"
    proof (intro allI impI)
      fix j assume "j < length (?t # new)"
      then show "color ((?t # new) ! j)
        = orDefault colors (name ((?t # new) ! j)) (presetValue (length found + j))"
        using col by (cases j) auto
    qed
    moreover have "parseLoop colors found (c # cs) = found @ (?t # new)"
      using Some t new by simp
    ultimately show ?thesis by blast
  qed
qed


lemma parseTerms_spans:
  "map (\<lambda>t. (name t, content t)) (parseTermsFromLatex s colors) = annsOf (spans AnyName s)"
  by (simp add: parseTermsFromLatex_def parseLoop_spans)

lemma rebuild_no_anns:
  "annsOf sps = [] \<Longrightarrow> rebuild h sps = rebuild h' sps"
proof (induction sps)
  case Nil
  show ?case by simp
next
  case (Cons sp sps)
  then show ?case by (cases sp) auto
qed


section \<open>Plain names\<close>

lemma plainName_Cons:
  "plainName (c # cs) = (c \<notin> set syntaxChars \<and> plainName cs)"
  by (simp add: plainName_def)

lemma toAtom_plain:
  "c \<notin> set syntaxChars \<Longrightarrow> toAtom c = Some (Lit c) \<and> toQuant c = None"
  by (auto simp: toAtom_def toQuant_def syntaxChars_def)

lemma compileName_plain:
  "plainName n \<Longrightarrow> compileName n = Some (map (\<lambda>c. (Lit c, One)) n)"
proof (induction n rule: induct_list012)
  case 1
  show ?case by simp
next
  case (2 c)
  then show ?case by (simp add: plainName_Cons toAtom_plain)
next
  case (3 c q rest)
  from 3(3) have c: "c \<notin> set syntaxChars" and q: "q \<notin> set syntaxChars"
    and r: "plainName (q # rest)"
    by (simp_all add: plainName_Cons)
  from 3(2) [OF r] toAtom_plain [OF c] toAtom_plain [OF q] show ?case by simp
qed

lemma plainName_chars:
  assumes "plainName n"
  shows "bs \<notin> set n" and "CHR ''}'' \<notin> set n" and "CHR ''$'' \<notin> set n"
  using assms by (auto simp: plainName_def list_all_iff syntaxChars_def)

lemma matchItems_plain:
  "matchItems (map (\<lambda>c. (Lit c, One)) n) s
     = (case stripPrefix n s of None \<Rightarrow> [] | Some r \<Rightarrow> [r])"
  by (induction n s rule: stripPrefix.induct) (auto simp: atomOk_def)

lemma matchName_pat:
  "matchName (pat n) s
     = (case stripPrefix n s of
          None \<Rightarrow> None
        | Some r \<Rightarrow> if matchTail r = None then None else Some (n, r))"
proof (cases "stripPrefix n s")
  case None
  then show ?thesis by (simp add: pat_def matchItems_plain)
next
  case (Some r)
  from stripPrefix_Some [OF Some] have "take (length s - length r) s = n" by simp
  with Some show ?thesis by (simp add: pat_def matchItems_plain)
qed

lemma matchAnn_pat_name:
  assumes "matchAnn (pat n) s = Some (m, g, r)"
  shows "m = n"
proof -
  from assms obtain r1 r2 where "matchName (pat n) r1 = Some (m, r2)"
    unfolding matchAnn_def by (auto split: option.splits)
  then show ?thesis
    by (auto simp: matchName_pat split: option.splits if_splits)
qed

lemma spans_pat_names:
  "Ann m g \<in> set (spans (pat n) s) \<Longrightarrow> m = n"
proof (induction "pat n" s rule: spans.induct)
  case 1
  then show ?case by simp
next
  case (2 c cs)
  show ?case
  proof (cases "matchAnn (pat n) (c # cs)")
    case None
    with 2 show ?thesis by auto
  next
    case (Some t)
    then obtain m' g' rest where t: "t = (m', g', rest)" by (cases t) auto
    with Some have mm: "matchAnn (pat n) (c # cs) = Some (m', g', rest)" by simp
    from 2(3) have "Ann m g = Ann m' g' \<or> Ann m g \<in> set (spans (pat n) rest)"
      unfolding spans_Some [OF mm] by simp
    then show ?thesis
    proof
      assume "Ann m g = Ann m' g'"
      with matchAnn_pat_name [OF mm] show ?thesis by simp
    next
      assume "Ann m g \<in> set (spans (pat n) rest)"
      with 2(2) [OF Some t [symmetric] refl] show ?thesis by simp
    qed
  qed
qed

lemma getSubstitution_no_dollar:
  "CHR ''$'' \<notin> set repl \<Longrightarrow> getSubstitution matched pre caps post repl = repl"
proof (induction repl rule: induct_list012)
  case 1
  show ?case by simp
next
  case (2 c)
  show ?case by simp
next
  case (3 c d rest)
  from 3(3) have c: "c \<noteq> CHR ''$''" and r: "CHR ''$'' \<notin> set (d # rest)" by auto
  from 3(2) [OF r] c show ?case by simp
qed

lemma getSubstitution_group1:
  "getSubstitution matched pre [g] post ''$1'' = g"
  by (simp add: isDigit_def digitVal_def capture_def)

lemma annotation_no_dollar:
  "CHR ''$'' \<notin> set n \<Longrightarrow> CHR ''$'' \<notin> set g \<Longrightarrow> CHR ''$'' \<notin> set (annotation n g)"
  by (auto simp: annotation_def bs_def)

lemma updateLatex_spans:
  assumes "plainName n" and "CHR ''$'' \<notin> set newContent"
  shows "updateLatex prev n newContent
     = Some (rebuild (\<lambda>m g. annotation n newContent) (spans (pat n) prev))"
proof -
  from plainName_chars(3) [OF assms(1)] assms(2)
  have "CHR ''$'' \<notin> set (annotation n newContent)" by (rule annotation_no_dollar)
  from getSubstitution_no_dollar [OF this]
  have eq: "(\<lambda>pre matched m g post.
       getSubstitution matched pre [] post (annotation n newContent))
     = (\<lambda>pre matched m g post. annotation n newContent)"
    by (intro ext)
  have "replaceAll (pat n) (\<lambda>pre matched m g post.
       getSubstitution matched pre [] post (annotation n newContent)) prev
     = rebuild (\<lambda>m g. annotation n newContent) (spans (pat n) prev)"
    unfolding replaceAll_def eq by (rule replaceFrom_spans)
  then show ?thesis
    by (simp only: updateLatex_def compileName_plain [OF assms(1)] pat_def option.case)
qed

lemma removeLatex_spans:
  assumes "plainName n"
  shows "removeLatex prev n = Some (rebuild (\<lambda>m g. g) (spans (pat n) prev))"
proof -
  have "replaceAll (pat n) (\<lambda>pre matched m g post.
       getSubstitution matched pre [g] post ''$1'') prev
     = rebuild (\<lambda>m g. g) (spans (pat n) prev)"
    by (simp only: getSubstitution_group1 replaceAll_def replaceFrom_spans)
  then show ?thesis
    by (simp only: removeLatex_def compileName_plain [OF assms] pat_def option.case)
qed


section \<open>Scans of tidy markup\<close>

lemma matchAnn_no_bs:
  "c \<noteq> bs \<Longrightarrow> matchAnn p (c # cs) = None"
  by (simp add: matchAnn_def)

lemma blocks_append:
  "blocks ps s \<Longrightarrow> blocks ps (s @ r)"
  by (induction ps s rule: blocks.induct) auto

lemma blocks_stripPrefix:
  "blocks ps s \<Longrightarrow> stripPrefix ps s = None"
  by (induction ps s rule: blocks.induct) auto

lemma matchAnn_blocked:
  "blocks ''clr{'' s \<Longrightarrow> matchAnn p (bs # s) = None"
  using blocks_stripPrefix [of "''clr{''" s] by (simp add: matchAnn_def)

lemma calm_no_bs:
  "bs \<notin> set u \<Longrightarrow> calm u"
  by (induction u) auto

lemma calm_append:
  "calm a \<Longrightarrow> calm b \<Longrightarrow> calm (a @ b)"
  by (induction a) (auto simp: blocks_append)

lemma spans_calm:
  "calm u \<Longrightarrow> spans p (u @ r) = map Text u @ spans p r"
proof (induction u)
  case Nil
  show ?case by simp
next
  case (Cons c u)
  then have IH: "spans p (u @ r) = map Text u @ spans p r" by simp
  have "matchAnn p (c # u @ r) = None"
  proof (cases "c = bs")
    case True
    with Cons.prems have "blocks ''clr{'' u" by simp
    then have "blocks ''clr{'' (u @ r)" by (rule blocks_append)
    with True show ?thesis by (simp add: matchAnn_blocked)
  next
    case False
    then show ?thesis by (rule matchAnn_no_bs)
  qed
  with IH show ?case by simp
qed

lemma guarded_blocks:
  "guarded ps T \<Longrightarrow> blocks ps (rebuild h T @ r)"
  by (induction ps T rule: guarded.induct) auto

lemma blocks_guarded:
  "blocks ps s \<Longrightarrow> guarded ps (map Text s @ T)"
  by (induction ps s rule: blocks.induct) auto

lemma classPlus_run:
  assumes "g \<noteq> []" and "CHR ''}'' \<notin> set g"
  shows "classPlus (g @ CHR ''}'' # r) = Some (g, CHR ''}'' # r)"
proof -
  from assms(2) have all: "\<And>x. x \<in> set g \<Longrightarrow> notClose x"
    by (auto simp: notClose_def)
  have "takeWhile notClose (g @ CHR ''}'' # r) = g"
    using all by (simp add: takeWhile_append2 notClose_def)
  moreover have "dropWhile notClose (g @ CHR ''}'' # r) = CHR ''}'' # r"
    using all by (simp add: dropWhile_append2 notClose_def)
  ultimately show ?thesis using assms(1) by (simp add: classPlus_def)
qed

lemma matchTail_run:
  assumes "g \<noteq> []" and "CHR ''}'' \<notin> set g"
  shows "matchTail (CHR ''}'' # CHR ''{'' # g @ CHR ''}'' # r) = Some (g, r)"
proof -
  have 3: "stripPrefix ''}{'' (CHR ''}'' # CHR ''{'' # g @ CHR ''}'' # r) = Some (g @ CHR ''}'' # r)"
    by simp
  have 4: "classPlus (g @ CHR ''}'' # r) = Some (g, CHR ''}'' # r)"
    by (rule classPlus_run [OF assms])
  have 5: "stripPrefix ''}'' (CHR ''}'' # r) = Some r" by simp
  show ?thesis by (simp only: matchTail_def 3 4 5 option.case prod.case)
qed

lemma matchAnn_annotation_any:
  assumes "n \<noteq> []" and "CHR ''}'' \<notin> set n" and "g \<noteq> []" and "CHR ''}'' \<notin> set g"
  shows "matchAnn AnyName (annotation n g @ r) = Some (n, g, r)"
proof -
  have 1: "stripPrefix (bs # ''clr{'') (annotation n g @ r) = Some (n @ CHR ''}'' # CHR ''{'' # g @ CHR ''}'' # r)"
    by (simp add: annotation_def)
  have 2: "matchName AnyName (n @ CHR ''}'' # CHR ''{'' # g @ CHR ''}'' # r) = Some (n, CHR ''}'' # CHR ''{'' # g @ CHR ''}'' # r)"
    using classPlus_run [OF assms(1,2)] by simp
  note 3 = matchTail_run [OF assms(3,4), of r]
  show ?thesis by (simp only: matchAnn_def 1 2 3 option.case prod.case)
qed

lemma stripPrefix_name:
  assumes "CHR ''}'' \<notin> set x"
  shows "stripPrefix x (n @ CHR ''}'' # r) = Some y
     \<Longrightarrow> \<exists>n'. n = x @ n' \<and> y = n' @ CHR ''}'' # r"
  using assms
proof (induction x arbitrary: n)
  case Nil
  then show ?case by simp
next
  case (Cons a x)
  show ?case
  proof (cases n)
    case Nil
    with Cons.prems show ?thesis by (auto split: if_splits)
  next
    case (Cons b n0)
    with Cons.prems Cons.IH [of n0] show ?thesis by (auto split: if_splits)
  qed
qed

lemma matchAnn_annotation_pat:
  assumes "plainName x" and "CHR ''}'' \<notin> set n" and "g \<noteq> []" and "CHR ''}'' \<notin> set g"
  shows "matchAnn (pat x) (annotation n g @ r) = (if n = x then Some (x, g, r) else None)"
proof (cases "n = x")
  case True
  have 1: "stripPrefix (bs # ''clr{'') (annotation x g @ r) = Some (x @ CHR ''}'' # CHR ''{'' # g @ CHR ''}'' # r)"
    by (simp add: annotation_def)
  note 3 = matchTail_run [OF assms(3,4), of r]
  have 2: "matchName (pat x) (x @ CHR ''}'' # CHR ''{'' # g @ CHR ''}'' # r) = Some (x, CHR ''}'' # CHR ''{'' # g @ CHR ''}'' # r)"
    using stripPrefix_append [of x "CHR ''}'' # CHR ''{'' # g @ CHR ''}'' # r"] 3
    by (simp add: matchName_pat)
  show ?thesis
    unfolding True by (simp only: matchAnn_def 1 2 3 option.case prod.case refl if_True)
next
  case False
  have 1: "stripPrefix (bs # ''clr{'') (annotation n g @ r) = Some (n @ CHR ''}'' # CHR ''{'' # g @ CHR ''}'' # r)"
    by (simp add: annotation_def)
  have "matchName (pat x) (n @ CHR ''}'' # CHR ''{'' # g @ CHR ''}'' # r) = None"
  proof (cases "stripPrefix x (n @ CHR ''}'' # CHR ''{'' # g @ CHR ''}'' # r)")
    case None
    then show ?thesis by (simp add: matchName_pat)
  next
    case (Some y)
    from stripPrefix_name [OF plainName_chars(2) [OF assms(1)] Some]
    obtain n' where n: "n = x @ n'" and y: "y = n' @ CHR ''}'' # CHR ''{'' # g @ CHR ''}'' # r"
      by blast
    from n False have "n' \<noteq> []" by auto
    moreover from n assms(2) have "CHR ''}'' \<notin> set n'" by simp
    ultimately have "stripPrefix ''}{'' y = None"
      unfolding y by (cases n') auto
    then have "matchTail y = None" by (simp add: matchTail_def)
    with Some show ?thesis by (simp add: matchName_pat)
  qed
  then have "matchAnn (pat x) (annotation n g @ r) = None"
    by (simp only: matchAnn_def 1 option.case)
  with False show ?thesis by simp
qed

lemma annotation_tail_calm:
  assumes "bs \<notin> set n" and "calm g"
  shows "\<exists>u. annotation n g = bs # u \<and> calm u"
proof -
  have "calm (''clr{'' @ n @ ''}{'')"
    using assms(1) by (intro calm_no_bs) (simp add: bs_def)
  moreover have "calm (g @ ''}'')"
    using assms(2) by (intro calm_append) (simp_all add: bs_def)
  ultimately have "calm ((''clr{'' @ n @ ''}{'') @ (g @ ''}''))" by (rule calm_append)
  then show ?thesis by (simp add: annotation_def)
qed

lemma okList_tail:
  "okList (sp # T) \<Longrightarrow> okList T"
  by (cases sp) auto

lemma spans_any_flat:
  "okList T \<Longrightarrow> spans AnyName (rebuild annotation T @ r) = T @ spans AnyName r"
proof (induction T)
  case Nil
  show ?case by simp
next
  case (Cons sp T)
  then have IH: "spans AnyName (rebuild annotation T @ r) = T @ spans AnyName r"
    using okList_tail by blast
  show ?case
  proof (cases sp)
    case (Text c)
    have "matchAnn AnyName (c # rebuild annotation T @ r) = None"
    proof (cases "c = bs")
      case True
      with Cons.prems Text have "guarded ''clr{'' T" by simp
      then have "blocks ''clr{'' (rebuild annotation T @ r)" by (rule guarded_blocks)
      with True show ?thesis by (simp add: matchAnn_blocked)
    next
      case False
      then show ?thesis by (rule matchAnn_no_bs)
    qed
    with IH Text show ?thesis by simp
  next
    case (Ann n g)
    with Cons.prems have "n \<noteq> []" "CHR ''}'' \<notin> set n" "g \<noteq> []" "CHR ''}'' \<notin> set g"
      by simp_all
    from matchAnn_annotation_any [OF this]
    have "matchAnn AnyName (annotation n g @ rebuild annotation T @ r)
       = Some (n, g, rebuild annotation T @ r)" .
    from spans_Some [OF this] IH Ann show ?thesis by simp
  qed
qed

lemma spans_pat_flat:
  assumes "plainName x"
  shows "okList T \<Longrightarrow>
     spans (pat x) (rebuild annotation T @ r) = concat (map (demote x) T) @ spans (pat x) r"
proof (induction T)
  case Nil
  show ?case by simp
next
  case (Cons sp T)
  then have IH: "spans (pat x) (rebuild annotation T @ r)
      = concat (map (demote x) T) @ spans (pat x) r"
    using okList_tail by blast
  show ?case
  proof (cases sp)
    case (Text c)
    have "matchAnn (pat x) (c # rebuild annotation T @ r) = None"
    proof (cases "c = bs")
      case True
      with Cons.prems Text have "guarded ''clr{'' T" by simp
      then have "blocks ''clr{'' (rebuild annotation T @ r)" by (rule guarded_blocks)
      with True show ?thesis by (simp add: matchAnn_blocked)
    next
      case False
      then show ?thesis by (rule matchAnn_no_bs)
    qed
    with IH Text show ?thesis by simp
  next
    case (Ann n g)
    with Cons.prems have ok: "CHR ''}'' \<notin> set n" "g \<noteq> []" "CHR ''}'' \<notin> set g"
      and nb: "bs \<notin> set n" "calm g"
      by simp_all
    note m = matchAnn_annotation_pat [OF assms ok, of "rebuild annotation T @ r"]
    show ?thesis
    proof (cases "n = x")
      case True
      with m have "matchAnn (pat x) (annotation n g @ rebuild annotation T @ r)
         = Some (n, g, rebuild annotation T @ r)" by simp
      from spans_Some [OF this] IH Ann True show ?thesis by simp
    next
      case False
      from annotation_tail_calm [OF nb] obtain u where
        u: "annotation n g = bs # u" and ub: "calm u" by blast
      from m False have "matchAnn (pat x) (bs # u @ rebuild annotation T @ r) = None"
        by (simp add: u)
      then have "spans (pat x) (bs # u @ rebuild annotation T @ r)
         = Text bs # spans (pat x) (u @ rebuild annotation T @ r)" by simp
      also have "\<dots> = Text bs # map Text u @ spans (pat x) (rebuild annotation T @ r)"
        by (simp add: spans_calm [OF ub])
      finally show ?thesis using IH Ann False by (simp add: u)
    qed
  qed
qed


lemma rebuild_Text:
  "rebuild h (map Text u) = u"
  by (induction u) auto

lemma annsOf_append:
  "annsOf (A @ B) = annsOf A @ annsOf B"
  by (induction A rule: annsOf.induct) auto

lemma annsOf_Text:
  "annsOf (map Text u) = []"
  by (induction u) auto

lemma guarded_unwrap:
  "guarded ps T \<Longrightarrow> guarded ps (concat (map (unwrap x) T))"
  by (induction ps T rule: guarded.induct) auto

lemma guarded_retag:
  "guarded ps T \<Longrightarrow> guarded ps (map (retag x v) T)"
  by (induction ps T rule: guarded.induct) auto

lemma okList_Text_calm:
  "calm u \<Longrightarrow> okList T \<Longrightarrow> okList (map Text u @ T)"
  by (induction u) (auto simp: blocks_guarded)

lemma okList_unwrap:
  "okList T \<Longrightarrow> okList (concat (map (unwrap x) T))"
  by (induction T rule: okList.induct) (auto simp: guarded_unwrap okList_Text_calm)

lemma okList_retag:
  assumes "x \<noteq> [] \<longrightarrow> v \<noteq> [] \<and> CHR ''}'' \<notin> set v \<and> calm v"
  shows "okList T \<Longrightarrow> okList (map (retag x v) T)"
  using assms by (induction T rule: okList.induct) (auto simp: guarded_retag)

lemma rebuild_demote_unwrap:
  "rebuild (\<lambda>m g. g) (concat (map (demote x) T))
     = rebuild annotation (concat (map (unwrap x) T))"
proof (induction T)
  case Nil
  show ?case by simp
next
  case (Cons sp T)
  then show ?case by (cases sp) (auto simp: rebuild_Text)
qed

lemma rebuild_demote_retag:
  "rebuild (\<lambda>m g. annotation x v) (concat (map (demote x) T))
     = rebuild annotation (map (retag x v) T)"
proof (induction T)
  case Nil
  show ?case by simp
next
  case (Cons sp T)
  then show ?case by (cases sp) (auto simp: rebuild_Text)
qed

lemma annsOf_unwrap:
  "annsOf (concat (map (unwrap x) T)) = filter (\<lambda>p. fst p \<noteq> x) (annsOf T)"
proof (induction T)
  case Nil
  show ?case by simp
next
  case (Cons sp T)
  then show ?case by (cases sp) (auto simp: annsOf_append annsOf_Text)
qed

lemma annsOf_retag:
  "annsOf (map (retag x v) T) = map (\<lambda>p. if fst p = x then (x, v) else p) (annsOf T)"
proof (induction T)
  case Nil
  show ?case by simp
next
  case (Cons sp T)
  then show ?case by (cases sp) auto
qed

lemma demote_Text:
  "concat (map (demote x \<circ> Text) u) = map Text u"
  by (induction u) auto

lemma annsOf_demote_unwrap:
  "annsOf (concat (map (demote x) (concat (map (unwrap x) T)))) = []"
proof (induction T)
  case Nil
  show ?case by simp
next
  case (Cons sp T)
  then show ?case by (cases sp) (auto simp: annsOf_append annsOf_Text demote_Text)
qed

lemma tidy_rebuilt:
  assumes "okList T"
  shows "spans AnyName (rebuild annotation T) = T" and "tidy (rebuild annotation T)"
proof -
  from spans_any_flat [OF assms, of "[]"] show "spans AnyName (rebuild annotation T) = T"
    by simp
  with assms show "tidy (rebuild annotation T)" by (simp add: tidy_def)
qed

lemma removeLatex_tidy:
  assumes "plainName x" and "tidy s"
  shows "removeLatex s x
     = Some (rebuild annotation (concat (map (unwrap x) (spans AnyName s))))"
proof -
  let ?T = "spans AnyName s"
  from assms(2) have ok: "okList ?T" by (simp add: tidy_def)
  have s: "rebuild annotation ?T = s" by (rule rebuild_spans)
  from spans_pat_flat [OF assms(1) ok, of "[]"]
  have "spans (pat x) s = concat (map (demote x) ?T)" by (simp add: s)
  then show ?thesis
    by (simp add: removeLatex_spans [OF assms(1)] rebuild_demote_unwrap)
qed

lemma updateLatex_tidy:
  assumes "plainName x" and "tidy s" and "CHR ''$'' \<notin> set v"
  shows "updateLatex s x v
     = Some (rebuild annotation (map (retag x v) (spans AnyName s)))"
proof -
  let ?T = "spans AnyName s"
  from assms(2) have ok: "okList ?T" by (simp add: tidy_def)
  have s: "rebuild annotation ?T = s" by (rule rebuild_spans)
  from spans_pat_flat [OF assms(1) ok, of "[]"]
  have "spans (pat x) s = concat (map (demote x) ?T)" by (simp add: s)
  then show ?thesis
    by (simp add: updateLatex_spans [OF assms(1,3)] rebuild_demote_retag)
qed


section \<open>Further lemmas on rebuilding\<close>

lemma parseTerms_nameContent:
  "map nameContent (parseTermsFromLatex s colors) = annsOf (spans AnyName s)"
  using parseTerms_spans [of s colors] by (simp add: nameContent_def [abs_def])


lemma replaceFrom_no_match:
  "annsOf (spans p s) = [] \<Longrightarrow> replaceFrom p f pre s = s"
proof (induction p s arbitrary: pre rule: spans.induct)
  case (1 p)
  show ?case by simp
next
  case (2 p c cs)
  show ?case
  proof (cases "matchAnn p (c # cs)")
    case None
    with 2 show ?thesis by simp
  next
    case (Some t)
    then obtain n g rest where "matchAnn p (c # cs) = Some (n, g, rest)" by (cases t) auto
    from spans_Some [OF this] 2(3) show ?thesis by simp
  qed
qed

lemma unwrap_idem:
  "concat (map (unwrap x) (concat (map (unwrap x) T))) = concat (map (unwrap x) T)"
proof (induction T)
  case Nil
  show ?case by simp
next
  case (Cons sp T)
  have t: "concat (map (unwrap x \<circ> Text) u) = map Text u" for u :: string
    by (induction u) auto
  from Cons show ?case by (cases sp) (auto simp: t)
qed

section \<open>Evaluation of concrete inputs\<close>

lemmas ev = scenarioMarkup_def annotation_def parseTermsFromLatex_def matchAnn_def matchTail_def
  classPlus_def notClose_def bs_def orDefault_def getProperty_def objectPrototypeKeys_def
  presetValue_def COLOR_PRESETS_def processedLatex_def replaceAll_def textcolor_def
  FALLBACK_COLOR_def

lemmas ev2 = ev tidy_def plainName_def syntaxChars_def updateLatex_def removeLatex_def
  pat_def nameContent_def isDigit_def digitVal_def capture_def toAtom_def toQuant_def
  atomOk_def isLineTerminator_def

section \<open>The scenario (C1)\<close>

text \<open>
  C1, as stated, fails. With the empty colour map the preview does not use the colours
  that extraction resolved for \<open>a\<close> and \<open>b\<close>: the render string differs from the one
  built with those two colours.
\<close>

theorem C1_counterexample:
  "processedLatex scenarioMarkup Map.empty
     \<noteq> ''x + '' @ bs # ''textcolor{''
          @ toText (color (parseTermsFromLatex scenarioMarkup Map.empty ! 0))
          @ ''}{y} = '' @ bs # ''textcolor{''
          @ toText (color (parseTermsFromLatex scenarioMarkup Map.empty ! 1)) @ ''}{z}''"
  by (simp add: ev)

text \<open>
  C1, amended. Extraction of the scenario markup with the empty colour map yields the
  two terms \<open>a\<close>/\<open>y\<close> and \<open>b\<close>/\<open>z\<close> with the first two presets, in that order. The
  preview of the same markup with the same, empty colour map wraps both contents in the
  fallback colour \<^verbatim>\<open>#888888\<close>; it uses the two presets once the colour map holds them
  for \<open>a\<close> and \<open>b\<close>.
\<close>

theorem C1_scenario:
  "parseTermsFromLatex scenarioMarkup Map.empty
     = [\<lparr>name = ''a'', content = ''y'', color = Str (presetValue 0)\<rparr>,
        \<lparr>name = ''b'', content = ''z'', color = Str (presetValue 1)\<rparr>]
   \<and> processedLatex scenarioMarkup Map.empty
     = ''x + '' @ bs # ''textcolor{#888888}{y} = '' @ bs # ''textcolor{#888888}{z}''
   \<and> processedLatex scenarioMarkup
       [''a'' \<mapsto> Str (presetValue 0), ''b'' \<mapsto> Str (presetValue 1)]
     = ''x + '' @ bs # ''textcolor{'' @ presetValue 0 @ ''}{y} = ''
       @ bs # ''textcolor{'' @ presetValue 1 @ ''}{z}''"
  by (simp add: ev)

section \<open>Colours of extracted terms (C2)\<close>

text \<open>
  C2, as stated, fails. In \<^verbatim>\<open>\clr{a}{y}\clr{b}{z}\<close> with \<open>a\<close> pinned by the colour map,
  \<open>b\<close> is the first unknown term, but its colour is not the preset of ordinal 0 among
  the unknown terms.
\<close>

theorem C2_counterexample:
  "color (parseTermsFromLatex (annotation ''a'' ''y'' @ annotation ''b'' ''z'')
            [''a'' \<mapsto> Str ''#000000''] ! 1)
     \<noteq> specColor [''a'' \<mapsto> Str ''#000000'']
         (parseTermsFromLatex (annotation ''a'' ''y'' @ annotation ''b'' ''z'')
            [''a'' \<mapsto> Str ''#000000'']) 1"
  by (simp add: ev specColor_def unknownOrdinal_def)

text \<open>
  C2, amended. For every markup and colour map, and every term of the extracted sequence
  whose name has an entry in the colour map or is not a property name of
  \<^verbatim>\<open>Object.prototype\<close>: the colour of the term at position \<open>i\<close> is the colour map's
  entry for its name when that entry exists and is not the empty string, and otherwise
  the preset whose index is \<open>i\<close>, the number of all terms found before it in the same
  scan (known ones included), modulo the number of presets.
\<close>

theorem C2_color_by_position:
  assumes "i < length (parseTermsFromLatex latexStr colors)"
    and "colors (name (parseTermsFromLatex latexStr colors ! i)) = None
         \<longrightarrow> name (parseTermsFromLatex latexStr colors ! i) \<notin> set objectPrototypeKeys"
  shows "color (parseTermsFromLatex latexStr colors ! i)
     = (case colors (name (parseTermsFromLatex latexStr colors ! i)) of
          None \<Rightarrow> Str (snd (COLOR_PRESETS ! (i mod length COLOR_PRESETS)))
        | Some v \<Rightarrow>
            if v = Str [] then Str (snd (COLOR_PRESETS ! (i mod length COLOR_PRESETS)))
            else v)"
proof -
  let ?t = "parseTermsFromLatex latexStr colors ! i"
  from parseLoop_colors [of colors "[]" latexStr] assms(1)
  have c: "color ?t = orDefault colors (name ?t) (presetValue i)"
    by (auto simp: parseTermsFromLatex_def)
  show ?thesis
  proof (cases "colors (name ?t)")
    case None
    with assms(2) c show ?thesis
      by (simp add: orDefault_def getProperty_def presetValue_def)
  next
    case (Some v)
    with c show ?thesis
      by (cases v) (simp_all add: orDefault_def getProperty_def presetValue_def)
  qed
qed

theorem C2_color_by_position_witness:
  "color (parseTermsFromLatex (annotation ''a'' ''y'' @ annotation ''b'' ''z'')
            [''a'' \<mapsto> Str ''#000000''] ! 0) = Str ''#000000''
   \<and> color (parseTermsFromLatex (annotation ''a'' ''y'' @ annotation ''b'' ''z'')
            [''a'' \<mapsto> Str ''#000000''] ! Suc 0) = Str ''#3b82f6''"
proof -
  let ?ts = "parseTermsFromLatex (annotation ''a'' ''y'' @ annotation ''b'' ''z'')
            [''a'' \<mapsto> Str ''#000000'']"
  have l: "0 < length ?ts" "Suc 0 < length ?ts" by (simp_all add: ev)
  have n: "name (?ts ! 0) = ''a''" "name (?ts ! Suc 0) = ''b''" by (simp_all add: ev)
  have k: "''b'' \<notin> set objectPrototypeKeys" by (simp add: objectPrototypeKeys_def)
  have "color (?ts ! 0) = Str ''#000000''"
    using C2_color_by_position [OF l(1)] by (simp add: n)
  moreover have "color (?ts ! Suc 0) = Str ''#3b82f6''"
    using C2_color_by_position [OF l(2)] by (simp add: n k COLOR_PRESETS_def)
  ultimately show ?thesis by simp
qed

text \<open>
  The names left out above: with no entry of its own, a name such as \<^verbatim>\<open>toString\<close> reads
  the member that the colour map inherits, which becomes the colour of the term and, as
  text, the colour token of the preview.
\<close>

lemma inherited_member_as_colour:
  "map color (parseTermsFromLatex (annotation ''toString'' ''x'') Map.empty)
     = [Inherited ''toString'']
   \<and> processedLatex (annotation ''constructor'' ''x'') Map.empty
     = bs # ''textcolor{function Object() { [native code] }}{x}''"
  by (simp add: ev)

section \<open>Transcoding (C8)\<close>

text \<open>
  C8, as stated, fails. A name that is present in the colour map with the empty string
  as its colour is rendered with the fallback colour, not with its entry.
\<close>

theorem C8_counterexample:
  "processedLatex (annotation ''a'' ''y'') [''a'' \<mapsto> Str []]
     \<noteq> rebuild (specTextcolor [''a'' \<mapsto> Str []]) (spans AnyName (annotation ''a'' ''y''))"
  by (simp add: ev specTextcolor_def)

text \<open>
  C8, amended. For every markup and colour map, the preview is the markup with every
  annotation span of the scan rewritten to a colour directive and every other character
  copied; the annotation spans are the extracted terms. An annotation \<^verbatim>\<open>\clr{n}{g}\<close>
  behind calm text is rewritten to \<^verbatim>\<open>\textcolor{token}{g}\<close> with the same content, and
  the preview goes on behind it. The token is the colour map's entry for the name when
  that entry is a string other than the empty one; it is the fallback \<^verbatim>\<open>#888888\<close>,
  which is none of the presets, when the entry is the empty string or when there is no
  entry and the name is not a property name of \<^verbatim>\<open>Object.prototype\<close>. A markup without
  annotations is returned as it is.
\<close>

theorem C8_transcoding:
  "processedLatex latexStr colors = rebuild (textcolor colors) (spans AnyName latexStr)
   \<and> rebuild annotation (spans AnyName latexStr) = latexStr
   \<and> annsOf (spans AnyName latexStr) = map nameContent (parseTermsFromLatex latexStr colors)
   \<and> (calm u \<and> n \<noteq> [] \<and> CHR ''}'' \<notin> set n \<and> g \<noteq> [] \<and> CHR ''}'' \<notin> set g \<longrightarrow>
        processedLatex (u @ annotation n g @ r) colors
          = u @ textcolor colors n g @ processedLatex r colors)
   \<and> (colors n = Some (Str v) \<and> v \<noteq> [] \<longrightarrow>
        textcolor colors n g = bs # ''textcolor{'' @ v @ ''}{'' @ g @ ''}'')
   \<and> (colors n = Some (Str []) \<or> colors n = None \<and> n \<notin> set objectPrototypeKeys \<longrightarrow>
        textcolor colors n g = bs # ''textcolor{#888888}{'' @ g @ ''}'')
   \<and> ''#888888'' \<notin> snd ` set COLOR_PRESETS
   \<and> (parseTermsFromLatex latexStr colors = [] \<longrightarrow> processedLatex latexStr colors = latexStr)"
proof -
  have 1: "processedLatex s colors = rebuild (textcolor colors) (spans AnyName s)" for s
    by (simp add: processedLatex_def replaceAll_def replaceFrom_spans)
  have 2: "rebuild annotation (spans AnyName latexStr) = latexStr"
    by (rule rebuild_spans)
  have 3: "annsOf (spans AnyName latexStr)
       = map nameContent (parseTermsFromLatex latexStr colors)"
    by (simp add: parseTerms_nameContent)
  have 4: "processedLatex (u @ annotation n g @ r) colors
          = u @ textcolor colors n g @ processedLatex r colors"
    if "calm u" and v: "n \<noteq> []" "CHR ''}'' \<notin> set n" "g \<noteq> []" "CHR ''}'' \<notin> set g"
  proof -
    from spans_Some [OF matchAnn_annotation_any [OF v, of r]]
    have "spans AnyName (annotation n g @ r) = Ann n g # spans AnyName r" .
    with spans_calm [OF that(1), of AnyName "annotation n g @ r"]
    show ?thesis by (simp add: 1 rebuild_Text)
  qed
  have 5: "textcolor colors n g = bs # ''textcolor{'' @ v @ ''}{'' @ g @ ''}''"
    if "colors n = Some (Str v)" and "v \<noteq> []"
    using that by (simp add: textcolor_def orDefault_def getProperty_def)
  have 6: "textcolor colors n g = bs # ''textcolor{#888888}{'' @ g @ ''}''"
    if "colors n = Some (Str []) \<or> colors n = None \<and> n \<notin> set objectPrototypeKeys"
    using that by (auto simp: textcolor_def orDefault_def getProperty_def FALLBACK_COLOR_def)
  have 7: "''#888888'' \<notin> snd ` set COLOR_PRESETS"
    by (simp add: COLOR_PRESETS_def)
  have 8: "processedLatex latexStr colors = latexStr"
    if "parseTermsFromLatex latexStr colors = []"
  proof -
    from that 3 have "annsOf (spans AnyName latexStr) = []" by simp
    from rebuild_no_anns [OF this, of "textcolor colors" annotation] 1 2
    show ?thesis by simp
  qed
  from 1 [of latexStr] 2 3 4 5 6 7 8 show ?thesis by blast
qed

theorem C8_transcoding_witness:
  "processedLatex scenarioMarkup [''a'' \<mapsto> Str ''#ef4444'']
     = ''x + '' @ bs # ''textcolor{#ef4444}{y} = '' @ bs # ''textcolor{#888888}{z}''"
proof -
  let ?colors = "[''a'' \<mapsto> Str ''#ef4444'']"
  let ?r = "'' = '' @ annotation ''b'' ''z''"
  note c = C8_transcoding [of scenarioMarkup ?colors "''x + ''" "''a''" "''y''" ?r "''#ef4444''"]
  have u: "calm ''x + ''" by (simp add: bs_def)
  from c u have "processedLatex (''x + '' @ annotation ''a'' ''y'' @ ?r) ?colors
      = ''x + '' @ textcolor ?colors ''a'' ''y'' @ processedLatex ?r ?colors"
    by simp
  moreover from c have "textcolor ?colors ''a'' ''y'' = bs # ''textcolor{#ef4444}{y}''"
    by simp
  moreover have "processedLatex ?r ?colors = '' = '' @ bs # ''textcolor{#888888}{z}''"
    by (simp add: ev)
  ultimately show ?thesis by (simp add: scenarioMarkup_def)
qed

section \<open>Name-scoped edits (C3)\<close>

text \<open>
  C3, as stated, fails. In \<^verbatim>\<open>\clr{Y}{\clr{X}{c}\<close> extraction finds one annotation, of name
  \<open>Y\<close> with the content \<^verbatim>\<open>\clr{X\<close>. Removing the term \<open>X\<close> rewrites the text
  \<^verbatim>\<open>\clr{X}{c}\<close> that overlaps it; what is left, \<^verbatim>\<open>\clr{Y}{c\<close>, holds no annotation at all.
\<close>

theorem C3_counterexample:
  "map nameContent (parseTermsFromLatex (annotation ''Y'' (bs # ''clr{X'') @ ''{c}'') Map.empty)
     = [(''Y'', bs # ''clr{X'')]
   \<and> removeLatex (annotation ''Y'' (bs # ''clr{X'') @ ''{c}'') ''X'' = Some (bs # ''clr{Y}{c'')
   \<and> parseTermsFromLatex (bs # ''clr{Y}{c'') Map.empty = []"
  by (simp add: ev2)

text \<open>
  C3, amended. Let \<open>X\<close> be a name without syntax characters of regular expressions and
  \<open>v\<close> a new content without dollar sign. For every markup, the scan of \<open>updateTerm\<close>
  and \<open>removeTerm\<close> finds only annotations whose name is exactly \<open>X\<close>; \<open>updateTerm\<close>
  rewrites each of them to \<^verbatim>\<open>\clr{X}{v}\<close>, \<open>removeTerm\<close> rewrites each of them to its
  content, and both copy every other character. On tidy markup the terms of every other
  name are extracted afterwards exactly as before, in the same order and with the same
  contents: after \<open>removeTerm\<close>, and after \<open>updateTerm\<close> when \<open>v\<close> is a non-empty,
  calm content without \<^verbatim>\<open>}\<close>.
\<close>

theorem C3_name_scoped:
  assumes "plainName X" and "CHR ''$'' \<notin> set v"
  shows "(\<forall>m g. Ann m g \<in> set (spans (pat X) s) \<longrightarrow> m = X)
     \<and> rebuild annotation (spans (pat X) s) = s
     \<and> updateLatex s X v = Some (rebuild (\<lambda>m g. annotation X v) (spans (pat X) s))
     \<and> removeLatex s X = Some (rebuild (\<lambda>m g. g) (spans (pat X) s))
     \<and> (tidy s \<longrightarrow>
          (\<exists>r. removeLatex s X = Some r
             \<and> map nameContent (parseTermsFromLatex r colors)
               = filter (\<lambda>p. fst p \<noteq> X) (map nameContent (parseTermsFromLatex s colors))))
     \<and> (tidy s \<and> v \<noteq> [] \<and> CHR ''}'' \<notin> set v \<and> calm v \<longrightarrow>
          (\<exists>r. updateLatex s X v = Some r
             \<and> map nameContent (parseTermsFromLatex r colors)
               = map (\<lambda>p. if fst p = X then (X, v) else p)
                   (map nameContent (parseTermsFromLatex s colors))))"
proof -
  let ?T = "spans AnyName s"
  have 1: "\<forall>m g. Ann m g \<in> set (spans (pat X) s) \<longrightarrow> m = X"
    using spans_pat_names by blast
  have 2: "rebuild annotation (spans (pat X) s) = s" by (rule rebuild_spans)
  note 3 = updateLatex_spans [OF assms, of s]
  note 4 = removeLatex_spans [OF assms(1), of s]
  have 5: "\<exists>r. removeLatex s X = Some r
             \<and> map nameContent (parseTermsFromLatex r colors)
               = filter (\<lambda>p. fst p \<noteq> X) (map nameContent (parseTermsFromLatex s colors))"
    if t: "tidy s"
  proof -
    from t have ok: "okList (concat (map (unwrap X) ?T))"
      by (simp add: tidy_def okList_unwrap)
    from removeLatex_tidy [OF assms(1) t] tidy_rebuilt(1) [OF ok]
    show ?thesis by (simp add: parseTerms_nameContent annsOf_unwrap)
  qed
  have 6: "\<exists>r. updateLatex s X v = Some r
             \<and> map nameContent (parseTermsFromLatex r colors)
               = map (\<lambda>p. if fst p = X then (X, v) else p)
                   (map nameContent (parseTermsFromLatex s colors))"
    if t: "tidy s" and v: "v \<noteq> []" "CHR ''}'' \<notin> set v" "calm v"
  proof -
    from t v have ok: "okList (map (retag X v) ?T)"
      by (intro okList_retag) (simp_all add: tidy_def)
    from updateLatex_tidy [OF assms(1) t assms(2)] tidy_rebuilt(1) [OF ok]
    show ?thesis by (simp add: parseTerms_nameContent annsOf_retag)
  qed
  from 1 2 3 4 5 6 show ?thesis by blast
qed

theorem C3_name_scoped_witness:
  "plainName ''b'' \<and> CHR ''$'' \<notin> set ''w'' \<and> tidy scenarioMarkup
   \<and> (\<exists>r. removeLatex scenarioMarkup ''b'' = Some r
        \<and> map nameContent (parseTermsFromLatex r Map.empty) = [(''a'', ''y'')])"
proof -
  have p: "plainName ''b''" by (simp add: ev2)
  have d: "CHR ''$'' \<notin> set ''w''" by simp
  have t: "tidy scenarioMarkup" by (simp add: ev2)
  have e: "map nameContent (parseTermsFromLatex scenarioMarkup Map.empty)
     = [(''a'', ''y''), (''b'', ''z'')]" by (simp add: ev2)
  from C3_name_scoped [OF p d, of scenarioMarkup Map.empty] t
  have "\<exists>r. removeLatex scenarioMarkup ''b'' = Some r
        \<and> map nameContent (parseTermsFromLatex r Map.empty)
          = filter (\<lambda>p. fst p \<noteq> ''b'')
              (map nameContent (parseTermsFromLatex scenarioMarkup Map.empty))"
    by blast
  with p d t show ?thesis by (simp add: e)
qed

section \<open>Removing a term (C4)\<close>

text \<open>
  C4, as stated, fails. In \<^verbatim>\<open>\clr{N}{\clr{N}}{c}\<close> the scan for \<open>N\<close> finds the occurrence
  with the content \<^verbatim>\<open>\clr{N\<close>; stripping its wrapper leaves \<^verbatim>\<open>\clr{N}{c}\<close>, from which
  extraction yields a term of name \<open>N\<close>.
\<close>

theorem C4_counterexample:
  "removeLatex (annotation ''N'' (bs # ''clr{N'') @ ''}{c}'') ''N'' = Some (annotation ''N'' ''c'')
   \<and> map nameContent (parseTermsFromLatex (annotation ''N'' ''c'') Map.empty) = [(''N'', ''c'')]"
  by (simp add: ev2)

text \<open>
  C4, amended. For a name \<open>N\<close> without syntax characters of regular expressions and
  every markup, \<open>removeTerm\<close> replaces every occurrence \<^verbatim>\<open>\clr{N}{content}\<close> that its scan
  finds by the bare content and copies every other character; and when the markup is
  tidy, extraction of the result yields no term of name \<open>N\<close>.
\<close>

theorem C4_remove_strips_wrapper:
  assumes "plainName N"
  shows "removeLatex s N = Some (rebuild (\<lambda>m g. g) (spans (pat N) s))
     \<and> rebuild annotation (spans (pat N) s) = s
     \<and> (\<forall>m g. Ann m g \<in> set (spans (pat N) s) \<longrightarrow> m = N)
     \<and> (tidy s \<longrightarrow>
          (\<exists>r. removeLatex s N = Some r
             \<and> (\<forall>t\<in>set (parseTermsFromLatex r colors). name t \<noteq> N)))"
proof -
  let ?T = "spans AnyName s"
  have 3: "\<forall>m g. Ann m g \<in> set (spans (pat N) s) \<longrightarrow> m = N"
    using spans_pat_names by blast
  have 4: "\<exists>r. removeLatex s N = Some r
             \<and> (\<forall>t\<in>set (parseTermsFromLatex r colors). name t \<noteq> N)"
    if t: "tidy s"
  proof -
    let ?r = "rebuild annotation (concat (map (unwrap N) ?T))"
    from t have ok: "okList (concat (map (unwrap N) ?T))"
      by (simp add: tidy_def okList_unwrap)
    have "map nameContent (parseTermsFromLatex ?r colors)
       = filter (\<lambda>p. fst p \<noteq> N) (annsOf ?T)"
      by (simp add: parseTerms_nameContent tidy_rebuilt(1) [OF ok] annsOf_unwrap)
    then have "\<forall>p\<in>set (map nameContent (parseTermsFromLatex ?r colors)). fst p \<noteq> N"
      by simp
    then have "\<forall>t\<in>set (parseTermsFromLatex ?r colors). name t \<noteq> N"
      by (simp add: nameContent_def)
    with removeLatex_tidy [OF assms t] show ?thesis by blast
  qed
  from removeLatex_spans [OF assms, of s] rebuild_spans [of "pat N" s] 3 4
  show ?thesis by blast
qed

theorem C4_remove_strips_wrapper_witness:
  "plainName ''b'' \<and> tidy scenarioMarkup
   \<and> removeLatex scenarioMarkup ''b'' = Some (''x + '' @ annotation ''a'' ''y'' @ '' = z'')
   \<and> ''b'' \<notin> name ` set (parseTermsFromLatex (''x + '' @ annotation ''a'' ''y'' @ '' = z'')
                             Map.empty)"
proof -
  have p: "plainName ''b''" by (simp add: ev2)
  have t: "tidy scenarioMarkup" by (simp add: ev2)
  have r: "removeLatex scenarioMarkup ''b'' = Some (''x + '' @ annotation ''a'' ''y'' @ '' = z'')"
    by (simp add: ev2)
  from C4_remove_strips_wrapper [OF p, of scenarioMarkup Map.empty] t r
  have "\<forall>t\<in>set (parseTermsFromLatex (''x + '' @ annotation ''a'' ''y'' @ '' = z'') Map.empty).
         name t \<noteq> ''b''"
    by auto
  then have "''b'' \<notin> name ` set (parseTermsFromLatex (''x + '' @ annotation ''a'' ''y'' @ '' = z'')
                             Map.empty)"
    by (auto simp: image_iff)
  with p t r show ?thesis by blast
qed

section \<open>The no-op update (C5)\<close>







text \<open>
  The dollar sign is excluded above because the new content becomes part of a replacement
  string: \<^verbatim>\<open>$$\<close> is written as one dollar sign and \<^verbatim>\<open>$&\<close> as the matched annotation.
\<close>

lemma update_expands_dollar_patterns:
  "updateLatex (annotation ''a'' ''$$'') ''a'' ''$$'' = Some (annotation ''a'' ''$'')
   \<and> updateLatex (annotation ''a'' ''x'') ''a'' ''$&'' = Some (annotation ''a'' (annotation ''a'' ''x''))"
  by (simp add: ev2)

section \<open>Removing twice (C7)\<close>

text \<open>
  C7, as stated, fails. The first removal of \<open>N\<close> from \<^verbatim>\<open>\clr{N}{\clr{N}}{c}\<close> gives
  \<^verbatim>\<open>\clr{N}{c}\<close>, and the second one gives \<open>c\<close>.
\<close>

theorem C7_counterexample:
  "removeLatex (annotation ''N'' (bs # ''clr{N'') @ ''}{c}'') ''N'' = Some (annotation ''N'' ''c'')
   \<and> removeLatex (annotation ''N'' ''c'') ''N'' = Some ''c''
   \<and> annotation ''N'' ''c'' \<noteq> ''c''"
  by (simp add: ev2)

text \<open>
  C7, amended. For a name \<open>N\<close> without syntax characters of regular expressions and
  every tidy markup, removing \<open>N\<close> twice gives the same markup as removing it once.
\<close>

theorem C7_remove_idempotent:
  assumes "plainName N" and "tidy s"
  shows "\<exists>r. removeLatex s N = Some r \<and> removeLatex r N = Some r"
proof -
  let ?T = "concat (map (unwrap N) (spans AnyName s))"
  let ?r = "rebuild annotation ?T"
  from assms(2) have ok: "okList ?T" by (simp add: tidy_def okList_unwrap)
  have 1: "removeLatex s N = Some ?r" by (rule removeLatex_tidy [OF assms])
  have "removeLatex ?r N = Some (rebuild annotation (concat (map (unwrap N) (spans AnyName ?r))))"
    by (rule removeLatex_tidy [OF assms(1) tidy_rebuilt(2) [OF ok]])
  then have "removeLatex ?r N = Some ?r"
    by (simp only: tidy_rebuilt(1) [OF ok] unwrap_idem)
  with 1 show ?thesis by blast
qed

theorem C7_remove_idempotent_witness:
  "plainName ''b'' \<and> tidy scenarioMarkup
   \<and> removeLatex scenarioMarkup ''b'' = Some (''x + '' @ annotation ''a'' ''y'' @ '' = z'')
   \<and> removeLatex (''x + '' @ annotation ''a'' ''y'' @ '' = z'') ''b''
       = Some (''x + '' @ annotation ''a'' ''y'' @ '' = z'')"
proof -
  have p: "plainName ''b''" by (simp add: ev2)
  have t: "tidy scenarioMarkup" by (simp add: ev2)
  have r: "removeLatex scenarioMarkup ''b'' = Some (''x + '' @ annotation ''a'' ''y'' @ '' = z'')"
    by (simp add: ev2)
  from C7_remove_idempotent [OF p t] r
  have "removeLatex (''x + '' @ annotation ''a'' ''y'' @ '' = z'') ''b''
       = Some (''x + '' @ annotation ''a'' ''y'' @ '' = z'')"
    by auto
  with p t r show ?thesis by blast
qed

section \<open>Names without occurrence (C9)\<close>

text \<open>
  C9 at the input where the code departs from it. The markup \<^verbatim>\<open>\clr{term2}{text}\<close> holds
  one annotation, of name \<open>term2\<close>, and none of name \<^verbatim>\<open>term.\<close>. The pattern built from
  the name \<^verbatim>\<open>term.\<close> matches it all the same, since the dot of the name is pasted into
  the pattern unescaped: \<open>updateTerm\<close> renames and rewrites the annotation of \<open>term2\<close>,
  and \<open>removeTerm\<close> strips its wrapper.
\<close>

theorem C9_failing_input:
  "map nameContent (parseTermsFromLatex (annotation ''term2'' ''text'') Map.empty)
     = [(''term2'', ''text'')]
   \<and> updateLatex (annotation ''term2'' ''text'') ''term.'' ''w'' = Some (annotation ''term.'' ''w'')
   \<and> removeLatex (annotation ''term2'' ''text'') ''term.'' = Some ''text''"
  by (simp add: ev2 isLineTerminator_def)

text \<open>
  For a name without syntax characters the two edits do leave a markup alone in which
  their scan finds no occurrence of the name, whatever the new content is.
\<close>

lemma unknown_plain_name_noop:
  assumes "plainName N" and "annsOf (spans (pat N) s) = []"
  shows "updateLatex s N v = Some s" and "removeLatex s N = Some s"
  using assms
  by (simp_all add: updateLatex_def removeLatex_def compileName_plain replaceAll_def
      replaceFrom_no_match pat_def)


section \<open>Emptied annotations\<close>

lemma annotation_opener:
  "annotation n g = opener n @ g @ ''}''"
  by (simp add: annotation_def opener_def)

lemma match_iff:
  assumes "plainName N"
  shows "matchAnn (pat N) s \<noteq> None
     \<longleftrightarrow> (\<exists>t. s = opener N @ t \<and> t \<noteq> [] \<and> hd t \<noteq> CHR ''}'' \<and> CHR ''}'' \<in> set t)"
proof
  assume "matchAnn (pat N) s \<noteq> None"
  then obtain m g r where m: "matchAnn (pat N) s = Some (m, g, r)" by auto
  from matchAnn_pat_name [OF m] matchAnn_Some [OF m]
  have s: "s = annotation N g @ r" and g: "g \<noteq> []" "CHR ''}'' \<notin> set g" by simp_all
  let ?t = "g @ CHR ''}'' # r"
  from s have "s = opener N @ ?t" by (simp add: annotation_opener)
  moreover have "?t \<noteq> []" by simp
  moreover from g have "hd ?t \<noteq> CHR ''}''" by (cases g) auto
  moreover have "CHR ''}'' \<in> set ?t" by simp
  ultimately show "\<exists>t. s = opener N @ t \<and> t \<noteq> [] \<and> hd t \<noteq> CHR ''}'' \<and> CHR ''}'' \<in> set t"
    by blast
next
  assume "\<exists>t. s = opener N @ t \<and> t \<noteq> [] \<and> hd t \<noteq> CHR ''}'' \<and> CHR ''}'' \<in> set t"
  then obtain t where s: "s = opener N @ t" and t: "t \<noteq> []" "hd t \<noteq> CHR ''}''"
    "CHR ''}'' \<in> set t" by blast
  from t(3) obtain g r where tt: "t = g @ CHR ''}'' # r" and g: "CHR ''}'' \<notin> set g"
    using split_list_first [of "CHR ''}''" t] by blast
  from t(2) tt have gne: "g \<noteq> []" by (cases g) simp_all
  from s tt have "s = annotation N g @ r" by (simp add: annotation_opener)
  with matchAnn_annotation_pat [OF assms plainName_chars(2) [OF assms] gne g, of r]
  show "matchAnn (pat N) s \<noteq> None" by simp
qed

lemma emptied_Nil [simp]: "emptied N [] = []"
  by (simp add: emptied_def)

lemma emptied_None:
  "matchAnn (pat N) (c # cs) = None \<Longrightarrow> emptied N (c # cs) = c # emptied N cs"
  by (simp add: emptied_def)

lemma emptied_Some:
  "matchAnn (pat N) s = Some (m, g, r) \<Longrightarrow> emptied N s = annotation N [] @ emptied N r"
  by (simp add: emptied_def spans_Some)

lemma bs_only_at_head:
  assumes "w @ v = bs # u" and "bs \<notin> set u" and "v \<noteq> []" and "hd v = bs"
  shows "w = []"
proof (cases w)
  case Nil
  then show ?thesis .
next
  case (Cons a w')
  with assms(1) have "u = w' @ v" by simp
  with assms(3,4) have "bs \<in> set u" using hd_in_set [of v] by auto
  with assms(2) show ?thesis by simp
qed

lemma opener_tail:
  assumes "plainName N"
  shows "\<exists>u. opener N = bs # u \<and> bs \<notin> set u"
  using plainName_chars(1) [OF assms] by (simp add: opener_def bs_def)

lemma carry_match:
  assumes "plainName N"
  shows "matchAnn (pat N) (w @ emptied N s) \<noteq> None \<Longrightarrow> matchAnn (pat N) (w @ s) \<noteq> None"
proof (induction "pat N" s arbitrary: w rule: spans.induct)
  case 1
  then show ?case by simp
next
  case (2 c cs)
  show ?case
  proof (cases "matchAnn (pat N) (c # cs)")
    case None
    from 2(3) have "matchAnn (pat N) ((w @ [c]) @ emptied N cs) \<noteq> None"
      by (simp add: emptied_None [OF None])
    from 2(1) [OF None this] show ?thesis by simp
  next
    case (Some x)
    then obtain m g r where m: "matchAnn (pat N) (c # cs) = Some (m, g, r)" by (cases x) auto
    from matchAnn_pat_name [OF m] matchAnn_Some [OF m]
    have s: "c # cs = annotation N g @ r" and g: "g \<noteq> []" by simp_all
    from 2(3) have "matchAnn (pat N) (w @ annotation N [] @ emptied N r) \<noteq> None"
      by (simp add: emptied_Some [OF m])
    then obtain t where
      eq: "w @ annotation N [] @ emptied N r = opener N @ t" and
      t: "t \<noteq> []" "hd t \<noteq> CHR ''}''" "CHR ''}'' \<in> set t"
      unfolding match_iff [OF assms] by blast
    from eq have "w @ (opener N @ CHR ''}'' # emptied N r) = opener N @ t"
      by (simp add: annotation_opener)
    then obtain us where
      "w = opener N @ us \<and> us @ opener N @ CHR ''}'' # emptied N r = t
       \<or> w @ us = opener N \<and> opener N @ CHR ''}'' # emptied N r = us @ t"
      unfolding append_eq_append_conv2 by blast
    then consider (long) w' where "w = opener N @ w'" "t = w' @ opener N @ CHR ''}'' # emptied N r"
      | (short) v where "w @ v = opener N" "opener N @ CHR ''}'' # emptied N r = v @ t" "v \<noteq> []"
    proof (elim disjE conjE)
      assume "w = opener N @ us" "us @ opener N @ CHR ''}'' # emptied N r = t"
      then show ?thesis using that(1) [of us] by simp
    next
      assume a: "w @ us = opener N" "opener N @ CHR ''}'' # emptied N r = us @ t"
      show ?thesis
      proof (cases "us = []")
        case True
        with a show ?thesis using that(1) [of "[]"] by simp
      next
        case False
        with a show ?thesis using that(2) [of us] by simp
      qed
    qed
    then have "\<exists>t'. w @ annotation N g @ r = opener N @ t' \<and> t' \<noteq> [] \<and> hd t' \<noteq> CHR ''}''
       \<and> CHR ''}'' \<in> set t'"
    proof cases
      case long
      let ?t' = "w' @ annotation N g @ r"
      have "w @ annotation N g @ r = opener N @ ?t'" using long(1) by simp
      moreover have "?t' \<noteq> []" by (simp add: annotation_def)
      moreover have "hd ?t' \<noteq> CHR ''}''"
      proof (cases w')
        case Nil
        then show ?thesis by (simp add: annotation_def bs_def)
      next
        case (Cons a w'')
        with long(2) t(2) show ?thesis by simp
      qed
      moreover have "CHR ''}'' \<in> set ?t'" by (simp add: annotation_def)
      ultimately show ?thesis by blast
    next
      case short
      from opener_tail [OF assms] obtain u where u: "opener N = bs # u" "bs \<notin> set u" by blast
      from short(2,3) u(1) have "hd v = bs" by (cases v) auto
      from bs_only_at_head [OF _ u(2) short(3) this, of w] short(1) u(1)
      have "w = []" by simp
      with short(1,2) have "t = CHR ''}'' # emptied N r" by simp
      with t(2) show ?thesis by simp
    qed
    then have "matchAnn (pat N) (w @ annotation N g @ r) \<noteq> None"
      unfolding match_iff [OF assms] .
    with s show ?thesis by simp
  qed
qed


lemma matchAnn_Nil [simp]: "matchAnn p [] = None"
  by (simp add: matchAnn_def)

lemma match_starts_bs:
  assumes "plainName N" and "matchAnn (pat N) t \<noteq> None"
  shows "t \<noteq> [] \<and> hd t = bs"
  using assms(2) unfolding match_iff [OF assms(1)] by (auto simp: opener_def)

lemma emptied_annotation_no_match:
  assumes "plainName N"
  shows "matchAnn (pat N) (annotation N [] @ r) = None"
proof (rule ccontr)
  assume "matchAnn (pat N) (annotation N [] @ r) \<noteq> None"
  then obtain t where "annotation N [] @ r = opener N @ t" and "hd t \<noteq> CHR ''}''"
    unfolding match_iff [OF assms] by blast
  then show False by (auto simp: annotation_opener)
qed

lemma no_match_in_emptied:
  assumes "plainName N"
  shows "emptied N s = u @ t \<Longrightarrow> matchAnn (pat N) t = None"
proof (induction "pat N" s arbitrary: u t rule: spans.induct)
  case 1
  then show ?case by simp
next
  case (2 c cs)
  show ?case
  proof (cases "matchAnn (pat N) (c # cs)")
    case None
    from 2(3) have eq: "c # emptied N cs = u @ t" by (simp add: emptied_None [OF None])
    show ?thesis
    proof (cases u)
      case Nil
      with eq have t: "t = [c] @ emptied N cs" by simp
      show ?thesis
      proof (rule ccontr)
        assume "matchAnn (pat N) t \<noteq> None"
        with t carry_match [OF assms, of "[c]" cs] None show False by simp
      qed
    next
      case (Cons a u')
      with eq have "emptied N cs = u' @ t" by simp
      from 2(1) [OF None this] show ?thesis .
    qed
  next
    case (Some x)
    then obtain m g r where x: "x = (m, g, r)" by (cases x) auto
    with Some have m: "matchAnn (pat N) (c # cs) = Some (m, g, r)" by simp
    note IH = 2(2) [OF Some x [symmetric] refl]
    from 2(3) have "annotation N [] @ emptied N r = u @ t"
      by (simp add: emptied_Some [OF m])
    then obtain us where
      "annotation N [] = u @ us \<and> us @ emptied N r = t
       \<or> annotation N [] @ us = u \<and> emptied N r = us @ t"
      unfolding append_eq_append_conv2 by blast
    then show ?thesis
    proof (elim disjE conjE)
      assume "annotation N [] @ us = u" "emptied N r = us @ t"
      from IH [OF this(2)] show ?thesis .
    next
      assume a: "annotation N [] = u @ us" "us @ emptied N r = t"
      show ?thesis
      proof (cases "us = []")
        case True
        with a have "emptied N r = [] @ t" by simp
        from IH [OF this] show ?thesis .
      next
        case False
        show ?thesis
        proof (rule ccontr)
          assume nm: "matchAnn (pat N) t \<noteq> None"
          from match_starts_bs [OF assms nm] a(2) False have "hd us = bs"
            by (cases us) auto
          moreover have "\<exists>v. annotation N [] = bs # v \<and> bs \<notin> set v"
            using plainName_chars(1) [OF assms] by (simp add: annotation_def bs_def)
          then obtain v where v: "annotation N [] = bs # v" "bs \<notin> set v" by blast
          ultimately have "u = []"
            using bs_only_at_head [of u us v] a(1) False by simp
          with a have "t = annotation N [] @ emptied N r" by simp
          with nm emptied_annotation_no_match [OF assms] show False by simp
        qed
      qed
    qed
  qed
qed

lemma anns_suffix:
  "(n, g) \<in> set (annsOf (spans p s)) \<Longrightarrow> \<exists>u t r. s = u @ t \<and> matchAnn p t = Some (n, g, r)"
proof (induction p s rule: spans.induct)
  case (1 p)
  then show ?case by simp
next
  case (2 p c cs)
  show ?case
  proof (cases "matchAnn p (c # cs)")
    case None
    with 2(3) have "(n, g) \<in> set (annsOf (spans p cs))" by simp
    from 2(1) [OF None this] obtain u t r where "cs = u @ t" "matchAnn p t = Some (n, g, r)"
      by blast
    then have "c # cs = (c # u) @ t \<and> matchAnn p t = Some (n, g, r)" by simp
    then show ?thesis by blast
  next
    case (Some x)
    then obtain m h r where x: "x = (m, h, r)" by (cases x) auto
    with Some have m: "matchAnn p (c # cs) = Some (m, h, r)" by simp
    from 2(3) have "(n, g) = (m, h) \<or> (n, g) \<in> set (annsOf (spans p r))"
      unfolding spans_Some [OF m] by simp
    then show ?thesis
    proof
      assume "(n, g) = (m, h)"
      with m have "c # cs = [] @ (c # cs) \<and> matchAnn p (c # cs) = Some (n, g, r)" by simp
      then show ?thesis by blast
    next
      assume "(n, g) \<in> set (annsOf (spans p r))"
      from 2(2) [OF Some x [symmetric] refl this]
      obtain u t r' where r: "r = u @ t" "matchAnn p t = Some (n, g, r')" by blast
      from matchAnn_Some(1) [OF m] r(1)
      have "c # cs = (annotation m h @ u) @ t" by simp
      with r(2) show ?thesis by blast
    qed
  qed
qed


lemma matchAnn_any_name:
  assumes "matchAnn AnyName s = Some (n, g, r)"
  shows "n \<noteq> []" and "CHR ''}'' \<notin> set n"
proof -
  from assms obtain r1 r2 where "matchName AnyName r1 = Some (n, r2)"
    unfolding matchAnn_def by (auto split: option.splits)
  then have "classPlus r1 = Some (n, r2)" by simp
  from classPlus_Some(2,3) [OF this] show "n \<noteq> []" and "CHR ''}'' \<notin> set n" .
qed

lemma parsed_valid:
  assumes "t \<in> set (parseTermsFromLatex s colors)"
  shows "name t \<noteq> [] \<and> content t \<noteq> []"
proof -
  from assms have "nameContent t \<in> set (map nameContent (parseTermsFromLatex s colors))"
    by simp
  then have "(name t, content t) \<in> set (annsOf (spans AnyName s))"
    by (simp add: parseTerms_nameContent nameContent_def)
  from anns_suffix [OF this] obtain u v r where
    "matchAnn AnyName v = Some (name t, content t, r)" by blast
  from matchAnn_any_name(1) [OF this] matchAnn_Some(2) [OF this] show ?thesis by simp
qed

lemma emptied_no_term:
  assumes "plainName N" and "t \<in> set (parseTermsFromLatex (emptied N s) colors)"
  shows "name t \<noteq> N"
proof
  assume n: "name t = N"
  from assms(2)
  have "nameContent t \<in> set (map nameContent (parseTermsFromLatex (emptied N s) colors))"
    by simp
  then have "(N, content t) \<in> set (annsOf (spans AnyName (emptied N s)))"
    by (simp add: parseTerms_nameContent nameContent_def n)
  from anns_suffix [OF this] obtain u v r where
    e: "emptied N s = u @ v" and m: "matchAnn AnyName v = Some (N, content t, r)" by blast
  from matchAnn_Some [OF m] have v: "v = annotation N (content t) @ r"
    and c: "content t \<noteq> []" "CHR ''}'' \<notin> set (content t)" by simp_all
  from matchAnn_annotation_pat [OF assms(1) plainName_chars(2) [OF assms(1)] c, of r] v
  have "matchAnn (pat N) v \<noteq> None" by simp
  with no_match_in_emptied [OF assms(1) e] show False by simp
qed

section \<open>Non-empty names and contents (C10)\<close>

text \<open>
  Every term that extraction yields has a non-empty name and a non-empty content. The
  pattern does not match at \<^verbatim>\<open>\clr{}{g}\<close>, whose name is empty, nor at \<^verbatim>\<open>\clr{n}{}\<close>,
  whose content is empty. After \<open>updateTerm\<close> with the empty content for a name without
  syntax characters of regular expressions, extraction yields no term of that name.
\<close>

lemma extracted_terms_nonempty:
  "(\<forall>t\<in>set (parseTermsFromLatex s colors). name t \<noteq> [] \<and> content t \<noteq> [])
   \<and> matchAnn AnyName (annotation [] g @ r) = None
   \<and> (CHR ''}'' \<notin> set n \<longrightarrow> matchAnn AnyName (annotation n [] @ r) = None)
   \<and> (plainName N \<longrightarrow>
        (\<exists>l. updateLatex s N [] = Some l
           \<and> (\<forall>t\<in>set (parseTermsFromLatex l colors). name t \<noteq> N)))"
proof -
  have 1: "\<forall>t\<in>set (parseTermsFromLatex s colors). name t \<noteq> [] \<and> content t \<noteq> []"
    using parsed_valid by blast
  have 2: "matchAnn AnyName (annotation [] g @ r) = None"
    by (simp add: matchAnn_def annotation_def classPlus_def notClose_def)
  have 3: "matchAnn AnyName (annotation n [] @ r) = None" if "CHR ''}'' \<notin> set n"
  proof (cases "n = []")
    case True
    then show ?thesis
      by (simp add: matchAnn_def annotation_def classPlus_def notClose_def)
  next
    case False
    have a: "stripPrefix (bs # ''clr{'') (annotation n [] @ r)
       = Some (n @ CHR ''}'' # CHR ''{'' # CHR ''}'' # r)"
      by (simp add: annotation_def)
    have b: "matchName AnyName (n @ CHR ''}'' # CHR ''{'' # CHR ''}'' # r)
       = Some (n, CHR ''}'' # CHR ''{'' # CHR ''}'' # r)"
      using classPlus_run [OF False that] by simp
    have c: "matchTail (CHR ''}'' # CHR ''{'' # CHR ''}'' # r) = None"
      by (simp add: matchTail_def classPlus_def notClose_def)
    show ?thesis by (simp only: matchAnn_def a b c option.case prod.case)
  qed
  have 4: "\<exists>l. updateLatex s N [] = Some l
           \<and> (\<forall>t\<in>set (parseTermsFromLatex l colors). name t \<noteq> N)" if p: "plainName N"
  proof -
    have "updateLatex s N [] = Some (emptied N s)"
      using updateLatex_spans [OF p, of "[]" s] by (simp add: emptied_def)
    with emptied_no_term [OF p] show ?thesis by blast
  qed
  from 1 2 3 4 show ?thesis by blast
qed

text \<open>
  C10 at the input where the code departs from it. Extraction yields the term of name
  \<^verbatim>\<open>a+b\<close> from \<^verbatim>\<open>\clr{a+b}{q}\<close>. In the pattern built from that name the plus sign is a
  quantifier, so the pattern matches \<^verbatim>\<open>\clr{aab}{q}\<close> but not the annotation of the name
  itself: \<open>updateTerm\<close> with the empty content returns the markup unchanged, and
  extraction yields the term of name \<^verbatim>\<open>a+b\<close> as before.
\<close>

theorem C10_failing_input:
  "map nameContent (parseTermsFromLatex (annotation ''a+b'' ''q'') Map.empty) = [(''a+b'', ''q'')]
   \<and> updateLatex (annotation ''a+b'' ''q'') ''a+b'' [] = Some (annotation ''a+b'' ''q'')
   \<and> updateLatex (annotation ''aab'' ''q'') ''a+b'' [] = Some (annotation ''a+b'' [])"
  by (simp add: ev2)

section \<open>Adding a term (C6)\<close>

lemma substring_prefix:
  "start \<le> length s \<Longrightarrow> substring s 0 start = take start s"
  by (simp add: substring_def Let_def)

lemma substring_mid:
  "start \<le> stop \<Longrightarrow> stop \<le> length s \<Longrightarrow> substring s start stop = take (stop - start) (drop start s)"
  by (simp add: substring_def Let_def min_def max_def)

lemma substringFrom_drop:
  "stop \<le> length s \<Longrightarrow> substringFrom s stop = drop stop s"
  by (simp add: substringFrom_def)

lemma split_at_selection:
  assumes "start \<le> stop" and "stop \<le> length s"
  shows "s = take start s @ substring s start stop @ drop stop s"
proof -
  have "drop start s = take (stop - start) (drop start s) @ drop (stop - start) (drop start s)"
    by (rule append_take_drop_id [symmetric])
  also have "drop (stop - start) (drop start s) = drop stop s"
    using assms by simp
  finally have "take start s @ drop start s
     = take start s @ take (stop - start) (drop start s) @ drop stop s" by simp
  then show ?thesis using assms by (simp add: substring_mid)
qed

lemma digit_not_close:
  assumes "k < 10"
  shows "digitChar k \<noteq> CHR ''}''"
proof -
  from assms have "digitChar k \<in> set ''0123456789''"
    unfolding digitChar_def by (intro nth_mem) simp
  then show ?thesis by auto
qed

lemma showNat_no_close:
  "CHR ''}'' \<notin> set (showNat n)"
proof (induction n rule: showNat.induct)
  case (1 n)
  show ?case
  proof (cases "n < 10")
    case True
    then show ?thesis
      using digit_not_close [of n] by (subst showNat.simps) auto
  next
    case False
    then have "n mod 10 < 10" by simp
    from digit_not_close [OF this] 1 False show ?thesis
      by (subst showNat.simps) auto
  qed
qed



lemma spans_inserted:
  assumes "okList T" and "n \<noteq> []" and "CHR ''}'' \<notin> set n" and "g \<noteq> []"
    and "CHR ''}'' \<notin> set g"
  shows "annsOf (spans AnyName (rebuild annotation T @ annotation n g @ r))
     = annsOf T @ (n, g) # annsOf (spans AnyName r)"
proof -
  from spans_Some [OF matchAnn_annotation_any [OF assms(2-5), of r]]
  have "spans AnyName (annotation n g @ r) = Ann n g # spans AnyName r" .
  with spans_any_flat [OF assms(1), of "annotation n g @ r"]
  show ?thesis by (simp add: annsOf_append)
qed

lemma spans_selected:
  assumes "okList T" and "calm sel"
  shows "annsOf (spans AnyName (rebuild annotation T @ sel @ r))
     = annsOf T @ annsOf (spans AnyName r)"
  using spans_any_flat [OF assms(1), of "sel @ r"] spans_calm [OF assms(2), of AnyName r]
  by (simp add: annsOf_append annsOf_Text)

lemmas ev3 = ev2 handleAddTerm_def substring_def substringFrom_def Let_def showNat.simps
  digitChar_def stateWithOneTerm_def

text \<open>
  The body of \<^verbatim>\<open>handleAddTerm\<close> for a mounted text area. Let the selection run from
  \<open>start\<close> to \<open>stop\<close> inside the markup, let the markup in front of the selection be
  tidy, and let the selected text be calm and without \<^verbatim>\<open>}\<close>. Then extraction afterwards
  yields the terms in front of the selection, then one new term whose name is
  \<^verbatim>\<open>term\<close> followed by the number of terms of the state plus one and whose content is
  the selected text, or \<^verbatim>\<open>text\<close> when the selection is empty, then the terms behind the
  selection.
\<close>

lemma handleAddTerm_mounted:
  assumes "start \<le> stop" and "stop \<le> length (latex st)"
    and "tidy (take start (latex st))"
    and "calm (substring (latex st) start stop)"
    and "CHR ''}'' \<notin> set (substring (latex st) start stop)"
  shows "let sel = substring (latex st) start stop;
             selectedText = (if sel = [] then ''text'' else sel);
             newTermName = ''term'' @ showNat (length (terms st) + 1);
             st' = handleAddTerm st (Some (start, stop))
         in map nameContent (parseTermsFromLatex (latex st') colors)
              = map nameContent (parseTermsFromLatex (take start (latex st)) colors)
                @ (newTermName, selectedText)
                # map nameContent (parseTermsFromLatex (drop stop (latex st)) colors)
          \<and> map nameContent (parseTermsFromLatex (latex st) colors)
              = map nameContent (parseTermsFromLatex (take start (latex st)) colors)
                @ map nameContent (parseTermsFromLatex (drop stop (latex st)) colors)
          \<and> length (parseTermsFromLatex (latex st') colors)
              = length (parseTermsFromLatex (latex st) colors) + 1
          \<and> terms st' = terms st @ [\<lparr>name = newTermName, content = selectedText,
                                       color = Str (presetValue (length (terms st)))\<rparr>]
          \<and> colorMap st' newTermName = Some (Str (presetValue (length (terms st))))"
proof -
  let ?s = "latex st"
  let ?A = "take start ?s" and ?B = "drop stop ?s"
  let ?sel = "substring ?s start stop"
  let ?txt = "if ?sel = [] then ''text'' else ?sel"
  let ?nm = "''term'' @ showNat (length (terms st) + 1)"
  let ?T = "spans AnyName ?A"
  from assms(1,2) have start: "start \<le> length ?s" by simp
  from assms(3) have ok: "okList ?T" by (simp add: tidy_def)
  have A: "rebuild annotation ?T = ?A" by (rule rebuild_spans)
  have nm: "?nm \<noteq> []" "CHR ''}'' \<notin> set ?nm"
    using showNat_no_close [of "length (terms st) + 1"] by simp_all
  have tx: "?txt \<noteq> []" "CHR ''}'' \<notin> set ?txt"
    using assms(5) by auto
  have new: "latex (handleAddTerm st (Some (start, stop))) = ?A @ annotation ?nm ?txt @ ?B"
    by (simp add: handleAddTerm_def Let_def substring_prefix [OF start]
        substringFrom_drop [OF assms(2)])
  have 1: "map nameContent (parseTermsFromLatex (?A @ annotation ?nm ?txt @ ?B) colors)
      = map nameContent (parseTermsFromLatex ?A colors)
        @ (?nm, ?txt) # map nameContent (parseTermsFromLatex ?B colors)"
    using spans_inserted [OF ok nm tx, of ?B]
    by (simp only: parseTerms_nameContent A)
  have "map nameContent (parseTermsFromLatex (?A @ ?sel @ ?B) colors)
      = map nameContent (parseTermsFromLatex ?A colors)
        @ map nameContent (parseTermsFromLatex ?B colors)"
    using spans_selected [OF ok assms(4), of ?B]
    by (simp only: parseTerms_nameContent A)
  with split_at_selection [OF assms(1,2)]
  have 2: "map nameContent (parseTermsFromLatex ?s colors)
      = map nameContent (parseTermsFromLatex ?A colors)
        @ map nameContent (parseTermsFromLatex ?B colors)"
    by simp
  have "length (map nameContent (parseTermsFromLatex (?A @ annotation ?nm ?txt @ ?B) colors))
      = length (map nameContent (parseTermsFromLatex ?s colors)) + 1"
    unfolding 1 2 by simp
  then have 3: "length (parseTermsFromLatex (?A @ annotation ?nm ?txt @ ?B) colors)
      = length (parseTermsFromLatex ?s colors) + 1"
    by simp
  have 4: "terms (handleAddTerm st (Some (start, stop)))
      = terms st @ [\<lparr>name = ?nm, content = ?txt,
                     color = Str (presetValue (length (terms st)))\<rparr>]"
    by (simp add: handleAddTerm_def Let_def)
  have 5: "colorMap (handleAddTerm st (Some (start, stop))) ?nm
      = Some (Str (presetValue (length (terms st))))"
    by (simp add: handleAddTerm_def Let_def)
  show ?thesis
    unfolding Let_def new using 1 2 3 4 5 by simp
qed

text \<open>
  C6 at the input where the code departs from it. The button that calls
  \<^verbatim>\<open>handleAddTerm\<close> exists on the tab \<^verbatim>\<open>'terms'\<close> only, where the text area is not
  mounted: a click on it leaves markup, colour map and term list as they are, so that
  extraction yields the same terms as before and no new one. On the other tab there is
  no button to click.
\<close>

theorem C6_failing_input:
  "addTermButton TermsTab stateWithOneTerm (0, 0) = Some stateWithOneTerm
   \<and> map nameContent
         (parseTermsFromLatex (latex stateWithOneTerm) (colorMap stateWithOneTerm))
       = [(''a'', ''y'')]
   \<and> addTermButton LatexTab stateWithOneTerm (0, 0) = None"
  by (simp add: ev3 addTermButton_def textareaRef_def)

text \<open>That holds for every state and selection.\<close>

lemma addTermButton_adds_nothing:
  "addTermButton activeTab st selection = Some st' \<Longrightarrow> st' = st"
  by (cases activeTab) (simp_all add: addTermButton_def textareaRef_def handleAddTerm_def)

end
